theory Spec2Isabelle
  imports Main "HOL-Library.Multiset"
begin

chapter \<open>The model\<close>

section \<open>JavaScript strings and numbers\<close>

text \<open>
  A JavaScript string is a sequence of UTF-16 code units. The strings the program takes
  apart (query parameters, file names, URLs) are lists of code units, each a number below
  \<open>65536\<close>; \<open>lit\<close> writes an ASCII literal of the program as such a list. Strings that
  are only compared or passed on (messages, mime types, identifiers) stay of type
  \<^typ>\<open>string\<close>.
\<close>

type_synonym jsstring = "nat list"

definition lit :: "string \<Rightarrow> jsstring" where
  "lit s = map of_char s"

text \<open>
  A JavaScript number is a double. The program only meets \<open>NaN\<close>, the two infinities
  and doubles whose value is an integer; \<open>Num i\<close> is the double of value \<open>i\<close>. The two
  zeros are one value here: the program never tells them apart.
\<close>

datatype number = NaN | PosInf | NegInf | Num int

subsection \<open>From an integer to the nearest double\<close>

text \<open>
  A double has 53 significant bits. An integer of more bits is rounded to the nearest
  multiple of the power of two that fits, a tie to the even one; from \<open>2 ^ 1024\<close> on the
  result is infinite.
\<close>

function bitlen :: "nat \<Rightarrow> nat" where
  "bitlen n = (if n = 0 then 0 else Suc (bitlen (n div 2)))"
  by pat_completeness auto
termination
  by (relation "measure id") auto

declare bitlen.simps [simp del]

definition round_even :: "nat \<Rightarrow> nat \<Rightarrow> nat" where
  "round_even n e =
     (let q = n div 2 ^ e; r = n mod 2 ^ e; h = 2 ^ (e - 1)
      in (if h < r \<or> (r = h \<and> odd q) then q + 1 else q) * 2 ^ e)"

definition to_double :: "nat \<Rightarrow> nat option" where
  "to_double n =
     (if bitlen n \<le> 53 then Some n
      else (let m = round_even n (bitlen n - 53) in if 2 ^ 1024 \<le> m then None else Some m))"

definition number_of_int :: "int \<Rightarrow> number" where
  "number_of_int i =
     (case to_double (nat \<bar>i\<bar>) of
        None \<Rightarrow> if i < 0 then NegInf else PosInf
      | Some m \<Rightarrow> Num (if i < 0 then - int m else int m))"

subsection \<open>\<^verbatim>\<open>parseInt(s, 10)\<close>\<close>

text \<open>
  \<^verbatim>\<open>parseInt\<close> with radix 10 skips leading white space (the characters of
  \<^verbatim>\<open>WhiteSpace\<close> and \<^verbatim>\<open>LineTerminator\<close>, all of them single code units), reads an optional
  sign and then the longest run of decimal digits, and ignores whatever follows. Without
  a digit the result is \<open>NaN\<close>; otherwise it is the double nearest to the integer read.
  (Beyond 20 significant digits the language allows an engine to read the further digits
  as zeros; Node's engine rounds the integer as it is written, and so does the model.)
\<close>

definition isWhiteSpace :: "nat \<Rightarrow> bool" where
  "isWhiteSpace u =
     (u \<in> set [0x09, 0x0A, 0x0B, 0x0C, 0x0D, 0x20, 0xA0, 0x1680, 0x2028, 0x2029, 0x202F,
               0x205F, 0x3000, 0xFEFF] \<or>
      (0x2000 \<le> u \<and> u \<le> 0x200A))"

definition isDigit :: "nat \<Rightarrow> bool" where
  "isDigit u = (48 \<le> u \<and> u \<le> 57)"

definition digitVal :: "nat \<Rightarrow> nat" where
  "digitVal u = u - 48"

definition digitsVal :: "jsstring \<Rightarrow> nat" where
  "digitsVal z = foldl (\<lambda>a u. 10 * a + digitVal u) 0 z"

definition stripSign :: "jsstring \<Rightarrow> int \<times> jsstring" where
  "stripSign t =
     (case t of
        [] \<Rightarrow> (1, [])
      | u # r \<Rightarrow> if u = 45 then (- 1, r) else if u = 43 then (1, r) else (1, t))"

text \<open>The integer the digits denote, with its sign, if there is a digit.\<close>

definition mathInt :: "jsstring \<Rightarrow> int option" where
  "mathInt s =
     (let (sign, t) = stripSign (dropWhile isWhiteSpace s);
          z = takeWhile isDigit t
      in if z = [] then None else Some (sign * int (digitsVal z)))"

definition parseInt :: "jsstring \<Rightarrow> number" where
  "parseInt s = (case mathInt s of None \<Rightarrow> NaN | Some i \<Rightarrow> number_of_int i)"

subsection \<open>Operators on numbers\<close>

text \<open>\<^verbatim>\<open>x || d\<close> on a number: \<open>NaN\<close> and zero are falsy, every other number is kept.\<close>

definition num_or :: "number \<Rightarrow> number \<Rightarrow> number" where
  "num_or x d = (if x = NaN \<or> x = Num 0 then d else x)"

fun num_le :: "number \<Rightarrow> number \<Rightarrow> bool" where
  "num_le (Num a) (Num b) = (a \<le> b)"
| "num_le NegInf y = (y \<noteq> NaN)"
| "num_le x PosInf = (x \<noteq> NaN)"
| "num_le x y = False"

definition Math_max :: "number \<Rightarrow> number \<Rightarrow> number" where
  "Math_max a b = (if a = NaN \<or> b = NaN then NaN else if num_le a b then b else a)"

definition Math_min :: "number \<Rightarrow> number \<Rightarrow> number" where
  "Math_min a b = (if a = NaN \<or> b = NaN then NaN else if num_le a b then a else b)"

text \<open>A number in a JSON body: \<^verbatim>\<open>JSON.stringify\<close> prints \<open>NaN\<close> and the infinities as \<^verbatim>\<open>null\<close>.\<close>

definition JSON_number :: "number \<Rightarrow> int option" where
  "JSON_number x = (case x of Num i \<Rightarrow> Some i | _ \<Rightarrow> None)"

subsection \<open>Query values and \<^verbatim>\<open>String(v)\<close>\<close>

text \<open>
  Express hands a query parameter over as a string, as an array (a repeated parameter) or
  as a nested object; \<^verbatim>\<open>String\<close> joins an array with commas and prints an object as
  \<^verbatim>\<open>[object Object]\<close>.
\<close>

datatype qval = QStr jsstring | QArr "qval list" | QObj

fun join_comma :: "jsstring list \<Rightarrow> jsstring" where
  "join_comma [] = []"
| "join_comma [s] = s"
| "join_comma (s # t # ss) = s @ lit '','' @ join_comma (t # ss)"

fun js_String :: "qval \<Rightarrow> jsstring" where
  "js_String (QStr s) = s"
| "js_String (QArr vs) = join_comma (map js_String vs)"
| "js_String QObj = lit ''[object Object]''"

subsection \<open>Printing a non-negative integer\<close>

text \<open>The decimal digits of a number below \<open>10\<^sup>2\<^sup>1\<close>, as a template string prints it.\<close>

definition digit_unit :: "nat \<Rightarrow> nat" where
  "digit_unit n = 48 + n mod 10"

function dec :: "nat \<Rightarrow> jsstring" where
  "dec n = (if n < 10 then [digit_unit n] else dec (n div 10) @ [digit_unit n])"
  by pat_completeness auto
termination
  by (relation "measure id") auto

declare dec.simps [simp del]

text \<open>The same for the messages of the gallery, which are of type \<^typ>\<open>string\<close>.\<close>

fun join_string :: "string list \<Rightarrow> string" where
  "join_string [] = []"
| "join_string [s] = s"
| "join_string (s # t # ss) = s @ '','' @ join_string (t # ss)"

fun digit_char :: "nat \<Rightarrow> char" where
  "digit_char n = char_of (48 + n mod 10)"

function dec_string :: "nat \<Rightarrow> string" where
  "dec_string n = (if n < 10 then [digit_char n] else dec_string (n div 10) @ [digit_char n])"
  by pat_completeness auto
termination
  by (relation "measure id") auto

declare dec_string.simps [simp del]

definition js_num_string :: "int \<Rightarrow> string" where
  "js_num_string i = (if i < 0 then CHR ''-'' # dec_string (nat (- i)) else dec_string (nat i))"

section \<open>The server: configuration, store and responses\<close>

text \<open>
  \<^verbatim>\<open>process.env\<close> as far as \<^verbatim>\<open>app.ts\<close> reads it. \<^verbatim>\<open>PORT\<close> and \<^verbatim>\<open>PUBLIC_URL\<close> are
  optional strings, the size ceiling is \<^verbatim>\<open>MAX_FILE_SIZE\<close> already converted to a number.
\<close>

record config =
  env_PORT :: "jsstring option"
  env_PUBLIC_URL :: "jsstring option"
  MAX_FILE_SIZE :: nat

text \<open>\<^verbatim>\<open>a || b\<close> on an optional string: \<open>undefined\<close> and the empty string are falsy.\<close>

definition str_or :: "jsstring option \<Rightarrow> jsstring \<Rightarrow> jsstring" where
  "str_or x d = (case x of None \<Rightarrow> d | Some s \<Rightarrow> if s = [] then d else s)"

definition PORT :: "config \<Rightarrow> jsstring" where
  "PORT cfg = str_or (env_PORT cfg) (lit ''3001'')"

definition publicBase :: "config \<Rightarrow> jsstring" where
  "publicBase cfg = str_or (env_PUBLIC_URL cfg) (lit ''http://localhost:'' @ PORT cfg)"

type_synonym bytes = "nat list"

record user_row =
  user_id :: string
  email :: string
  username :: string

record image_row =
  image_id :: string
  filename :: jsstring
  originalName :: jsstring
  mimeType :: string
  size_bytes :: nat
  width :: "int option"
  height :: "int option"
  uploadedAt :: nat
  userId :: string

text \<open>
  The upload directory is a flat map from storage name to bytes; the metadata store holds
  the \<^verbatim>\<open>users\<close> and \<^verbatim>\<open>images\<close> tables in insertion order.
\<close>

record store =
  files :: "jsstring \<rightharpoonup> bytes"
  users :: "user_row list"
  images :: "image_row list"

record image_dto =
  dto_id :: string
  dto_filename :: jsstring
  dto_originalName :: jsstring
  dto_mimeType :: string
  dto_size :: nat
  dto_width :: "int option"
  dto_height :: "int option"
  dto_url :: jsstring
  dto_uploadedAt :: nat

text \<open>
  The bodies the server sends. In the body of a listing the total is a count; the limit
  and the offset are numbers as JSON carries them, \<^const>\<open>None\<close> standing for \<^verbatim>\<open>null\<close>.
\<close>

datatype body =
    ErrorBody string
  | ImageBody image_dto
  | ListBody nat "int option" "int option" "image_dto list"

datatype response = Response nat body

fun status :: "response \<Rightarrow> nat" where
  "status (Response c b) = c"

text \<open>
  What the program does not determine: the clock, the random number, the identifiers the
  database generates, whether each database call fails (a fault-injected store), and the
  case table of the Unicode version the runtime was built with. \<open>Lowercase_Mapping\<close> gives
  the lower-case code points of a code point from \<open>256\<close> on, between the code points
  before and after it.
\<close>

record world =
  now :: nat
  random_int :: nat
  fresh_user_id :: string
  fresh_image_id :: string
  db_now :: nat
  upsert_fails :: bool
  create_fails :: bool
  findMany_fails :: bool
  count_fails :: bool
  Lowercase_Mapping :: "nat list \<Rightarrow> nat \<Rightarrow> nat list \<Rightarrow> nat list"

section \<open>The listing endpoint \<^verbatim>\<open>GET /api/v1/images\<close>\<close>

record list_query =
  q_limit :: "qval option"
  q_offset :: "qval option"

definition nullish_or :: "qval option \<Rightarrow> string \<Rightarrow> qval" where
  "nullish_or v d = (case v of None \<Rightarrow> QStr (lit d) | Some x \<Rightarrow> x)"

definition effective_limit :: "list_query \<Rightarrow> number" where
  "effective_limit q =
     Math_min
       (Math_max (num_or (parseInt (js_String (nullish_or (q_limit q) ''20''))) (Num 20)) (Num 1))
       (Num 100)"

definition effective_offset :: "list_query \<Rightarrow> number" where
  "effective_offset q =
     Math_max (num_or (parseInt (js_String (nullish_or (q_offset q) ''0''))) (Num 0)) (Num 0)"

text \<open>
  \<^verbatim>\<open>prisma.image.findMany({orderBy: {uploadedAt: 'desc'}, take, skip})\<close>: newest first;
  among rows of equal timestamp the later insertion comes first. Whether the store
  accepts a call is \<^const>\<open>findMany_fails\<close>; an accepted call skips and takes as many rows as
  it is told, all of them for an infinite number.
\<close>

definition order_desc :: "image_row list \<Rightarrow> image_row list" where
  "order_desc rows = rev (sort_key uploadedAt rows)"

definition skip_rows :: "number \<Rightarrow> 'a list \<Rightarrow> 'a list" where
  "skip_rows sk xs = (case sk of Num s \<Rightarrow> drop (nat s) xs | PosInf \<Rightarrow> [] | _ \<Rightarrow> xs)"

definition take_rows :: "number \<Rightarrow> 'a list \<Rightarrow> 'a list" where
  "take_rows tk xs = (case tk of Num t \<Rightarrow> take (nat t) xs | PosInf \<Rightarrow> xs | _ \<Rightarrow> [])"

definition findMany :: "image_row list \<Rightarrow> number \<Rightarrow> number \<Rightarrow> image_row list" where
  "findMany rows tk sk = take_rows tk (skip_rows sk (order_desc rows))"

definition to_dto :: "config \<Rightarrow> image_row \<Rightarrow> image_dto" where
  "to_dto cfg img =
     \<lparr> dto_id = image_id img,
       dto_filename = filename img,
       dto_originalName = originalName img,
       dto_mimeType = mimeType img,
       dto_size = size_bytes img,
       dto_width = width img,
       dto_height = height img,
       dto_url = publicBase cfg @ lit ''/uploads/'' @ filename img,
       dto_uploadedAt = uploadedAt img \<rparr>"

text \<open>
  Errors passed to \<^verbatim>\<open>next\<close>: a \<^verbatim>\<open>multer.MulterError\<close> with its code and message, or
  any other error object (a plain \<^verbatim>\<open>Error\<close>, a database client error) with its message.
\<close>

datatype err = MulterError string string | PlainError string

text \<open>The last middleware: every error that reaches it becomes a 500.\<close>

definition error_handler :: "err \<Rightarrow> response" where
  "error_handler e = Response 500 (ErrorBody ''Something went wrong!'')"

text \<open>The multer error handler comes first in the chain and passes on what is not a \<^verbatim>\<open>MulterError\<close>.\<close>

definition multer_error_handler :: "err \<Rightarrow> response" where
  "multer_error_handler e =
     (case e of
        MulterError code msg \<Rightarrow>
          if code = ''LIMIT_FILE_SIZE'' then Response 413 (ErrorBody ''File too large. Max 10MB.'')
          else Response 400 (ErrorBody msg)
      | PlainError msg \<Rightarrow> error_handler e)"

definition next_err :: "err \<Rightarrow> response" where
  "next_err e = multer_error_handler e"

definition list_images :: "config \<Rightarrow> world \<Rightarrow> list_query \<Rightarrow> store \<Rightarrow> store \<times> response" where
  "list_images cfg w q st =
     (let limit = effective_limit q;
          offset = effective_offset q
      in if findMany_fails w \<or> count_fails w then (st, next_err (PlainError ''database error''))
         else
           (let items = findMany (images st) limit offset;
                total = length (images st);
                mapped = map (to_dto cfg) items
            in (st, Response 200
                  (ListBody total (JSON_number limit) (JSON_number offset) mapped))))"

text \<open>
  The integer a client asked for in a query parameter, if it asked for one, and clamping
  to an interval; both are used to state what the effective values are.
\<close>

definition requested :: "qval option \<Rightarrow> int option" where
  "requested v = (case v of None \<Rightarrow> None | Some x \<Rightarrow> mathInt (js_String x))"

definition clamp :: "int \<Rightarrow> int \<Rightarrow> int \<Rightarrow> int" where
  "clamp lo hi n = min (max n lo) hi"

section \<open>The filename allocator\<close>

subsection \<open>\<^verbatim>\<open>path.extname\<close> (POSIX)\<close>

text \<open>
  Node's \<^verbatim>\<open>path.extname\<close> scans the path from its last code unit to its first. It skips
  trailing slashes (code unit 47), stops at the first slash before the last path
  component, remembers the right-most dot (code unit 46) of that component, and records
  in \<^verbatim>\<open>preDotState\<close> what it saw to the left of that dot. The function is followed variable
  by variable; an index that is \<^verbatim>\<open>-1\<close> in the program is \<open>- 1\<close> here.
\<close>

record ext_state =
  startDot :: int
  startPart :: int
  endIdx :: int
  matchedSlash :: bool
  preDotState :: int

text \<open>\<open>extname_loop path n s\<close> runs the loop body for the indices \<open>n - 1\<close> down to \<open>0\<close>.\<close>

fun extname_loop :: "jsstring \<Rightarrow> nat \<Rightarrow> ext_state \<Rightarrow> ext_state" where
  "extname_loop path 0 s = s"
| "extname_loop path (Suc i) s =
     (let code = path ! i in
      if code = 47 then
        (if \<not> matchedSlash s then s\<lparr>startPart := int i + 1\<rparr>
         else extname_loop path i s)
      else
        (let s1 = (if endIdx s = - 1 then s\<lparr>matchedSlash := False, endIdx := int i + 1\<rparr> else s);
             s2 = (if code = 46 then
                     (if startDot s1 = - 1 then s1\<lparr>startDot := int i\<rparr>
                      else if preDotState s1 \<noteq> 1 then s1\<lparr>preDotState := 1\<rparr>
                      else s1)
                   else if startDot s1 \<noteq> - 1 then s1\<lparr>preDotState := - 1\<rparr>
                   else s1)
         in extname_loop path i s2))"

definition slice :: "jsstring \<Rightarrow> int \<Rightarrow> int \<Rightarrow> jsstring" where
  "slice path a b = take (nat b - nat a) (drop (nat a) path)"

definition ext_init :: ext_state where
  "ext_init = \<lparr>startDot = - 1, startPart = 0, endIdx = - 1, matchedSlash = True, preDotState = 0\<rparr>"

definition extname :: "jsstring \<Rightarrow> jsstring" where
  "extname path =
     (let s = extname_loop path (length path) ext_init in
      if startDot s = - 1 \<or> endIdx s = - 1 \<or> preDotState s = 0 \<or>
         (preDotState s = 1 \<and> startDot s = endIdx s - 1 \<and> startDot s = startPart s + 1)
      then []
      else slice path (startDot s) (endIdx s))"

subsection \<open>\<^verbatim>\<open>toLowerCase\<close>\<close>

text \<open>
  \<^verbatim>\<open>String.prototype.toLowerCase\<close> reads the string as code points (a leading surrogate
  followed by a trailing one is one code point from \<open>65536\<close> on), replaces every code
  point by its lower-case mapping and writes the result as code units again.
\<close>

fun code_points :: "jsstring \<Rightarrow> nat list" where
  "code_points (h # l # us) =
     (if 0xD800 \<le> h \<and> h \<le> 0xDBFF \<and> 0xDC00 \<le> l \<and> l \<le> 0xDFFF
      then (0x10000 + (h - 0xD800) * 0x400 + (l - 0xDC00)) # code_points us
      else h # code_points (l # us))"
| "code_points us = us"

definition utf16 :: "nat \<Rightarrow> jsstring" where
  "utf16 c =
     (if c < 0x10000 then [c]
      else [0xD800 + (c - 0x10000) div 0x400, 0xDC00 + (c - 0x10000) mod 0x400])"

text \<open>
  Below \<open>256\<close> the mapping is fixed by Unicode once and for all: the letters \<open>A\<close> to \<open>Z\<close>
  and the capitals from \<open>0xC0\<close> to \<open>0xDE\<close>, the multiplication sign \<open>0xD7\<close> apart, move up by
  32, and nothing else changes. From \<open>256\<close> on the mapping is the runtime's table.
\<close>

definition latin1_lower :: "nat \<Rightarrow> nat" where
  "latin1_lower c =
     (if (65 \<le> c \<and> c \<le> 90) \<or> (192 \<le> c \<and> c \<le> 222 \<and> c \<noteq> 215) then c + 32 else c)"

definition lower_cp ::
    "(nat list \<Rightarrow> nat \<Rightarrow> nat list \<Rightarrow> nat list) \<Rightarrow> nat list \<Rightarrow> nat \<Rightarrow> nat list \<Rightarrow> nat list" where
  "lower_cp table prev c rest = (if c < 256 then [latin1_lower c] else table prev c rest)"

fun lower_all ::
    "(nat list \<Rightarrow> nat \<Rightarrow> nat list \<Rightarrow> nat list) \<Rightarrow> nat list \<Rightarrow> nat list \<Rightarrow> nat list" where
  "lower_all table prev [] = []"
| "lower_all table prev (c # rest) =
     lower_cp table prev c rest @ lower_all table (prev @ [c]) rest"

definition toLowerCase :: "(nat list \<Rightarrow> nat \<Rightarrow> nat list \<Rightarrow> nat list) \<Rightarrow> jsstring \<Rightarrow> jsstring" where
  "toLowerCase table s = concat (map utf16 (lower_all table [] (code_points s)))"

subsection \<open>The \<^verbatim>\<open>filename\<close> callback of \<^verbatim>\<open>multer.diskStorage\<close>\<close>

text \<open>
  \<^verbatim>\<open>Date.now()\<close> is \<^const>\<open>now\<close> and \<^verbatim>\<open>Math.round(Math.random() * 1e9)\<close> is
  \<^const>\<open>random_int\<close>; both are non-negative integers far below \<open>10\<^sup>2\<^sup>1\<close>, which a
  template string prints in plain decimal digits.
\<close>

definition storage_filename :: "world \<Rightarrow> jsstring \<Rightarrow> jsstring" where
  "storage_filename w originalname =
     (let ext = toLowerCase (Lowercase_Mapping w) (extname originalname)
      in dec (now w) @ lit ''-'' @ dec (random_int w) @ ext)"

section \<open>The upload endpoint \<^verbatim>\<open>POST /api/v1/uploads\<close>\<close>

text \<open>The file part of the multipart form as the client sent it.\<close>

record file_part =
  originalname :: jsstring
  mimetype :: string
  content :: bytes

text \<open>\<^verbatim>\<open>req.file\<close> as multer fills it in.\<close>

record multer_file =
  file_filename :: jsstring
  file_originalname :: jsstring
  file_mimetype :: string
  file_size :: nat

definition fileFilter :: "file_part \<Rightarrow> err + bool" where
  "fileFilter file =
     (let allowed = [''image/jpeg'', ''image/png''] in
      if mimetype file \<notin> set allowed
      then Inl (PlainError ''Only JPEG and PNG files are allowed'')
      else Inr True)"

definition unlink :: "jsstring \<Rightarrow> store \<Rightarrow> store" where
  "unlink p st = st\<lparr>files := (files st)(p := None)\<rparr>"

text \<open>
  \<^verbatim>\<open>upload.single('image')\<close>: multer asks \<^const>\<open>fileFilter\<close> first and hands its error to
  \<^verbatim>\<open>next\<close> unchanged, before anything is written. An accepted file is written to the
  upload directory under the allocated name; a file above the size ceiling ends in a
  \<^verbatim>\<open>MulterError\<close> with code \<^verbatim>\<open>LIMIT_FILE_SIZE\<close>, and multer removes what it wrote.
\<close>

definition upload_single ::
    "config \<Rightarrow> world \<Rightarrow> file_part option \<Rightarrow> store \<Rightarrow> store \<times> (err + multer_file option)" where
  "upload_single cfg w part st =
     (case part of
        None \<Rightarrow> (st, Inr None)
      | Some file \<Rightarrow>
          (case fileFilter file of
             Inl e \<Rightarrow> (st, Inl e)
           | Inr accept \<Rightarrow>
               if \<not> accept then (st, Inr None)
               else
                 (let name = storage_filename w (originalname file) in
                  if length (content file) > MAX_FILE_SIZE cfg
                  then (unlink name st, Inl (MulterError ''LIMIT_FILE_SIZE'' ''File too large''))
                  else
                    (st\<lparr>files := (files st)(name \<mapsto> content file)\<rparr>,
                     Inr (Some \<lparr> file_filename = name,
                                 file_originalname = originalname file,
                                 file_mimetype = mimetype file,
                                 file_size = length (content file) \<rparr>)))))"

subsection \<open>Probing the dimensions\<close>

text \<open>
  \<^verbatim>\<open>sizeOf\<close> (the \<^verbatim>\<open>image-size\<close> package) is declared as
  \<^verbatim>\<open>(path: string) => { width?: number; height?: number }\<close>. The decoder is a parameter of
  the model: from the bytes it either throws (\<^const>\<open>None\<close>) or returns two optional numbers.
\<close>

datatype dimensions = Dimensions (dim_width: "int option") (dim_height: "int option")

type_synonym decoder = "bytes \<Rightarrow> dimensions option"

definition sizeOf :: "decoder \<Rightarrow> store \<Rightarrow> jsstring \<Rightarrow> dimensions option" where
  "sizeOf decode st filePath =
     (case files st filePath of None \<Rightarrow> None | Some b \<Rightarrow> decode b)"

text \<open>\<^verbatim>\<open>!x\<close> on an optional number: true for \<open>undefined\<close> and for \<open>0\<close>.\<close>

definition falsy :: "int option \<Rightarrow> bool" where
  "falsy x = (case x of None \<Rightarrow> True | Some n \<Rightarrow> n = 0)"

subsection \<open>The metadata store calls\<close>

definition demoEmail :: string where
  "demoEmail = ''demo@example.com''"

definition demoUsername :: string where
  "demoUsername = ''demo''"

definition user_upsert :: "world \<Rightarrow> store \<Rightarrow> err + (store \<times> user_row)" where
  "user_upsert w st =
     (if upsert_fails w then Inl (PlainError ''database error'')
      else
        (case find (\<lambda>u. email u = demoEmail) (users st) of
           Some u \<Rightarrow> Inr (st, u)
         | None \<Rightarrow>
             (let u = \<lparr>user_id = fresh_user_id w, email = demoEmail, username = demoUsername\<rparr>
              in Inr (st\<lparr>users := users st @ [u]\<rparr>, u))))"

definition image_create ::
    "world \<Rightarrow> multer_file \<Rightarrow> dimensions \<Rightarrow> user_row \<Rightarrow> store \<Rightarrow> err + (store \<times> image_row)" where
  "image_create w file dims user st =
     (if create_fails w then Inl (PlainError ''database error'')
      else
        (let row = \<lparr> image_id = fresh_image_id w,
                      filename = file_filename file,
                      originalName = file_originalname file,
                      mimeType = file_mimetype file,
                      size_bytes = file_size file,
                      width = dim_width dims,
                      height = dim_height dims,
                      uploadedAt = db_now w,
                      userId = user_id user \<rparr>
         in Inr (st\<lparr>images := images st @ [row]\<rparr>, row)))"

subsection \<open>The route handler\<close>

definition upload_handler ::
    "config \<Rightarrow> decoder \<Rightarrow> world \<Rightarrow> multer_file option \<Rightarrow> store \<Rightarrow> store \<times> response" where
  "upload_handler cfg decode w req_file st =
     (case req_file of
        None \<Rightarrow> (st, Response 400 (ErrorBody ''No file uploaded''))
      | Some file \<Rightarrow>
          (let filePath = file_filename file in
           case sizeOf decode st filePath of
             None \<Rightarrow> (unlink filePath st, Response 400 (ErrorBody ''Could not process image''))
           | Some dims \<Rightarrow>
               if falsy (dim_width dims) \<or> falsy (dim_height dims)
               then (unlink filePath st, Response 400 (ErrorBody ''Invalid image file''))
               else
                 (case user_upsert w st of
                    Inl e \<Rightarrow> (st, next_err e)
                  | Inr (st1, user) \<Rightarrow>
                      (case image_create w file dims user st1 of
                         Inl dbErr \<Rightarrow> (unlink filePath st1, next_err dbErr)
                       | Inr (st2, img) \<Rightarrow> (st2, Response 201 (ImageBody (to_dto cfg img)))))))"

definition post_uploads ::
    "config \<Rightarrow> decoder \<Rightarrow> world \<Rightarrow> file_part option \<Rightarrow> store \<Rightarrow> store \<times> response" where
  "post_uploads cfg decode w part st =
     (case upload_single cfg w part st of
        (st1, Inl e) \<Rightarrow> (st1, next_err e)
      | (st1, Inr req_file) \<Rightarrow> upload_handler cfg decode w req_file st1)"

section \<open>The gallery component\<close>

subsection \<open>JSON values as the component reads them\<close>

text \<open>
  The body of a response after \<^verbatim>\<open>res.json()\<close>. Numbers are restricted to integers; an
  object keeps its members in the order of the text, and a repeated key takes its last
  value.
\<close>

datatype json =
    JNull
  | JBool bool
  | JNum int
  | JStr string
  | JArr "json list"
  | JObj "(string \<times> json) list"

text \<open>
  Reading the property \<^verbatim>\<open>error\<close> or \<^verbatim>\<open>items\<close> of a value that is not \<^verbatim>\<open>null\<close>: only an
  object can have it, every other value gives \<open>undefined\<close> (\<^const>\<open>None\<close>).
\<close>

fun get_prop :: "string \<Rightarrow> json \<Rightarrow> json option" where
  "get_prop k (JObj kvs) = map_of (rev kvs) k"
| "get_prop k v = None"

fun truthy :: "json option \<Rightarrow> bool" where
  "truthy None = False"
| "truthy (Some JNull) = False"
| "truthy (Some (JBool b)) = b"
| "truthy (Some (JNum n)) = (n \<noteq> 0)"
| "truthy (Some (JStr s)) = (s \<noteq> [])"
| "truthy (Some (JArr vs)) = True"
| "truthy (Some (JObj kvs)) = True"

text \<open>\<^verbatim>\<open>String(v)\<close>, which \<^verbatim>\<open>new Error(v)\<close> applies to its argument.\<close>

fun json_String :: "json \<Rightarrow> string" where
  "json_String JNull = ''null''"
| "json_String (JBool b) = (if b then ''true'' else ''false'')"
| "json_String (JNum n) = js_num_string n"
| "json_String (JStr s) = s"
| "json_String (JArr vs) = join_string (map (\<lambda>v. if v = JNull then [] else json_String v) vs)"
| "json_String (JObj kvs) = ''[object Object]''"

text \<open>A thrown error object, as far as the component looks at it.\<close>

datatype js_error = JsError (err_name: string) (err_message: string)

text \<open>
  How one \<^verbatim>\<open>fetch\<close> ends: the promise rejects, or it resolves with a response whose
  \<^verbatim>\<open>ok\<close> flag is given and whose \<^verbatim>\<open>json()\<close> rejects or resolves.
\<close>

datatype body_outcome = JsonRejects js_error | JsonResolves json

datatype fetch_outcome = FetchRejects js_error | FetchResolves bool body_outcome

definition default_message :: string where
  "default_message = ''Failed to load images''"

text \<open>\<^verbatim>\<open>data?.error || 'Failed to load images'\<close>, as the message of the new error.\<close>

definition error_of_body :: "json \<Rightarrow> string" where
  "error_of_body data =
     (let e = (if data = JNull then None else get_prop ''error'' data)
      in case e of
           None \<Rightarrow> default_message
         | Some v \<Rightarrow> if truthy (Some v) then json_String v else default_message)"

text \<open>
  The first three lines of the \<^verbatim>\<open>try\<close> block: both awaits and the \<^verbatim>\<open>res.ok\<close> test. They
  end with the parsed body or with a thrown error.
\<close>

definition await_body :: "fetch_outcome \<Rightarrow> js_error + json" where
  "await_body out =
     (case out of
        FetchRejects e \<Rightarrow> Inl e
      | FetchResolves ok b \<Rightarrow>
          (case b of
             JsonRejects e \<Rightarrow> Inl e
           | JsonResolves data \<Rightarrow>
               if \<not> ok then Inl (JsError ''Error'' (error_of_body data)) else Inr data))"

text \<open>
  \<^verbatim>\<open>Array.isArray(data.items) ? data.items : []\<close>. Reading a property of \<^verbatim>\<open>null\<close> throws a
  \<^verbatim>\<open>TypeError\<close>, whose message is the engine's.
\<close>

definition null_read_message :: string where
  "null_read_message = ''Cannot read properties of null''"

definition items_of :: "json \<Rightarrow> js_error + json list" where
  "items_of data =
     (if data = JNull then Inl (JsError ''TypeError'' null_read_message)
      else (case get_prop ''items'' data of
              Some (JArr vs) \<Rightarrow> Inr vs
            | _ \<Rightarrow> Inr []))"

subsection \<open>Component state and one fetch cycle\<close>

text \<open>The three \<^verbatim>\<open>useState\<close> cells.\<close>

record rendered =
  items :: "json list"
  error :: "string option"
  loading :: bool

definition initial_rendered :: rendered where
  "initial_rendered = \<lparr>items = [], error = None, loading = True\<rparr>"

text \<open>
  What is outstanding in a cycle: nothing, one request of a given attempt, or one timer
  with its delay and the attempt it will start.
\<close>

datatype pending = Idle | InFlight nat | Timer nat nat

text \<open>
  The variables one run of the effect closes over: the \<^verbatim>\<open>cancelled\<close> flag and the abort
  controller, together with what is outstanding, the number of requests issued and the
  delays of the timers set so far.
\<close>

record cycle =
  cancelled :: bool
  aborted :: bool
  pending :: pending
  fetches :: nat
  timers :: "nat list"

record gallery =
  view :: rendered
  cyc :: cycle

definition retry_delay :: "nat \<Rightarrow> nat" where
  "retry_delay attempt = min (1000 * 2 ^ attempt) 8000"

text \<open>\<^verbatim>\<open>load(attempt)\<close> up to its first \<^verbatim>\<open>await\<close>.\<close>

definition load_begin :: "nat \<Rightarrow> gallery \<Rightarrow> gallery" where
  "load_begin attempt g =
     (if cancelled (cyc g) then g\<lparr>cyc := (cyc g)\<lparr>pending := Idle\<rparr>\<rparr>
      else
        (let v1 = (if attempt = 0 then (view g)\<lparr>loading := True\<rparr> else view g);
             v2 = v1\<lparr>error := None\<rparr>
         in g\<lparr>view := v2,
               cyc := (cyc g)\<lparr>pending := InFlight attempt, fetches := fetches (cyc g) + 1\<rparr>\<rparr>))"

text \<open>The \<^verbatim>\<open>try\<close> block after the request has settled: the new state, or the error thrown.\<close>

definition load_try :: "fetch_outcome \<Rightarrow> gallery \<Rightarrow> js_error + gallery" where
  "load_try out g =
     (case await_body out of
        Inl e \<Rightarrow> Inl e
      | Inr data \<Rightarrow>
          if cancelled (cyc g) then Inr g
          else
            (case items_of data of
               Inl e \<Rightarrow> Inl e
             | Inr vs \<Rightarrow> Inr (g\<lparr>view := (view g)\<lparr>items := vs, loading := False\<rparr>\<rparr>)))"

text \<open>\<^verbatim>\<open>e?.message || 'Failed to load images'\<close>.\<close>

definition message_or_default :: "js_error \<Rightarrow> string" where
  "message_or_default e = (if err_message e = [] then default_message else err_message e)"

text \<open>The \<^verbatim>\<open>catch\<close> block.\<close>

definition load_catch :: "nat \<Rightarrow> js_error \<Rightarrow> gallery \<Rightarrow> gallery" where
  "load_catch attempt e g =
     (if cancelled (cyc g) then g
      else
        (let isAbort = (err_name e = ''AbortError'') in
         if \<not> isAbort \<and> attempt < 5 then
           (let delay = retry_delay attempt
            in g\<lparr>cyc := (cyc g)\<lparr>pending := Timer delay (attempt + 1),
                                   timers := timers (cyc g) @ [delay]\<rparr>\<rparr>)
         else g\<lparr>view := (view g)\<lparr>error := Some (message_or_default e), loading := False\<rparr>\<rparr>))"

text \<open>\<^verbatim>\<open>load(attempt)\<close> from the moment its request settles.\<close>

definition load_settle :: "nat \<Rightarrow> fetch_outcome \<Rightarrow> gallery \<Rightarrow> gallery" where
  "load_settle attempt out g =
     (let g0 = g\<lparr>cyc := (cyc g)\<lparr>pending := Idle\<rparr>\<rparr> in
      case load_try out g0 of
        Inr g1 \<Rightarrow> g1
      | Inl e \<Rightarrow> load_catch attempt e g0)"

text \<open>
  The events of a cycle on the host's event loop: the outstanding request settles, the
  outstanding timer fires, or the effect's cleanup runs (the refresh key changed or the
  component was unmounted). An event with nothing to act on changes nothing.
\<close>

datatype event = Settle fetch_outcome | TimerFires | Cleanup

fun step :: "event \<Rightarrow> gallery \<Rightarrow> gallery" where
  "step (Settle out) g =
     (case pending (cyc g) of InFlight attempt \<Rightarrow> load_settle attempt out g | _ \<Rightarrow> g)"
| "step TimerFires g =
     (case pending (cyc g) of Timer delay attempt \<Rightarrow> load_begin attempt g | _ \<Rightarrow> g)"
| "step Cleanup g = g\<lparr>cyc := (cyc g)\<lparr>cancelled := True, aborted := True\<rparr>\<rparr>"

definition run :: "event list \<Rightarrow> gallery \<Rightarrow> gallery" where
  "run evs g = fold step evs g"

text \<open>The body of the effect: a fresh cycle over the current cells, then \<^verbatim>\<open>load()\<close>.\<close>

definition new_cycle :: cycle where
  "new_cycle = \<lparr>cancelled = False, aborted = False, pending = Idle, fetches = 0, timers = []\<rparr>"

definition effect_start :: "rendered \<Rightarrow> gallery" where
  "effect_start v = load_begin 0 \<lparr>view = v, cyc = new_cycle\<rparr>"

text \<open>What an attempt throws when it is not cancelled, if anything.\<close>

definition attempt_error :: "fetch_outcome \<Rightarrow> js_error option" where
  "attempt_error out =
     (case await_body out of
        Inl e \<Rightarrow> Some e
      | Inr data \<Rightarrow> (case items_of data of Inl e \<Rightarrow> Some e | Inr vs \<Rightarrow> None))"

text \<open>
  A transient failure is an attempt that throws anything but an \<^verbatim>\<open>AbortError\<close>. In a
  retry trace every outcome is followed by the firing of the timer it has set.
\<close>

definition transient :: "fetch_outcome \<Rightarrow> bool" where
  "transient out = (case attempt_error out of None \<Rightarrow> False | Some e \<Rightarrow> err_name e \<noteq> ''AbortError'')"

definition retry_trace :: "fetch_outcome list \<Rightarrow> event list" where
  "retry_trace outs = concat (map (\<lambda>out. [Settle out, TimerFires]) outs)"

section \<open>Auxiliary notions for the proofs\<close>

text \<open>No code unit \<open>c\<close> at the indices from \<open>n\<close> up to, but not including, \<open>e\<close>.\<close>

definition free_of :: "jsstring \<Rightarrow> nat \<Rightarrow> nat \<Rightarrow> int \<Rightarrow> bool" where
  "free_of path c n e \<longleftrightarrow> (\<forall>j. n \<le> j \<and> int j < e \<longrightarrow> path ! j \<noteq> c)"

text \<open>
  The invariant of the loop of \<^const>\<open>extname\<close> when the indices from \<open>n\<close> on have been
  visited: the end is marked exactly when a code unit other than a slash has been seen,
  no slash lies between the current index and the end, and the dot, once found, is the
  only dot up to the end.
\<close>

definition ext_inv :: "jsstring \<Rightarrow> nat \<Rightarrow> ext_state \<Rightarrow> bool" where
  "ext_inv path n s \<longleftrightarrow>
     (endIdx s = - 1 \<longrightarrow> startDot s = - 1) \<and>
     (endIdx s \<noteq> - 1 \<longrightarrow>
        \<not> matchedSlash s \<and> int n < endIdx s \<and> endIdx s \<le> int (length path) \<and>
        free_of path 47 n (endIdx s)) \<and>
     (startDot s = - 1 \<longrightarrow> free_of path 46 n (endIdx s)) \<and>
     (startDot s \<noteq> - 1 \<longrightarrow>
        int n \<le> startDot s \<and> startDot s < endIdx s \<and> path ! nat (startDot s) = 46 \<and>
        free_of path 46 (Suc (nat (startDot s))) (endIdx s))"

text \<open>The value of \<^verbatim>\<open>preDotState\<close> after the code units \<open>a\<close> to the left of the dot.\<close>

definition pre_dot :: "jsstring \<Rightarrow> int \<Rightarrow> int" where
  "pre_dot a d = (case a of [] \<Rightarrow> d | c # _ \<Rightarrow> if c = 46 then 1 else - 1)"

text \<open>The part of a storage name in front of the extension.\<close>

definition stem :: "world \<Rightarrow> jsstring" where
  "stem w = dec (now w) @ lit ''-'' @ dec (random_int w)"

text \<open>The store after multer has written an accepted file, and the \<^verbatim>\<open>req.file\<close> it hands on.\<close>

definition written :: "world \<Rightarrow> file_part \<Rightarrow> store \<Rightarrow> store" where
  "written w f st = st\<lparr>files := (files st)(storage_filename w (originalname f) \<mapsto> content f)\<rparr>"

definition req_file_of :: "world \<Rightarrow> file_part \<Rightarrow> multer_file" where
  "req_file_of w f = \<lparr> file_filename = storage_filename w (originalname f),
                         file_originalname = originalname f,
                         file_mimetype = mimetype f,
                         file_size = length (content f) \<rparr>"

text \<open>The state in which attempt \<open>k\<close> of a cycle started over the cells \<open>v\<close> is in flight.\<close>

definition in_flight :: "rendered \<Rightarrow> nat \<Rightarrow> gallery" where
  "in_flight v k =
     \<lparr>view = v\<lparr>loading := True, error := None\<rparr>,
      cyc = \<lparr>cancelled = False, aborted = False, pending = InFlight k, fetches = k + 1,
             timers = map retry_delay [0..<k]\<rparr>\<rparr>"

text \<open>
  What is used of the runtime's case table: no lower-case mapping of a code point from
  \<open>256\<close> on contains a dot, a slash or a backslash.
\<close>

definition safe_table :: "(nat list \<Rightarrow> nat \<Rightarrow> nat list \<Rightarrow> nat list) \<Rightarrow> bool" where
  "safe_table table \<longleftrightarrow>
     (\<forall>prev c rest. 256 \<le> c \<longrightarrow>
        46 \<notin> set (table prev c rest) \<and> 47 \<notin> set (table prev c rest) \<and>
        92 \<notin> set (table prev c rest))"

text \<open>The lower-case code units of the code points \<open>cs\<close> that follow the code points \<open>b\<close>.\<close>

definition lower_units ::
    "(nat list \<Rightarrow> nat \<Rightarrow> nat list \<Rightarrow> nat list) \<Rightarrow> nat list \<Rightarrow> nat list \<Rightarrow> jsstring" where
  "lower_units table b cs = concat (map utf16 (lower_all table b cs))"

section \<open>Example data\<close>

text \<open>Concrete inputs on which the theorems below are instantiated.\<close>

definition cfg0 :: config where
  "cfg0 = \<lparr>env_PORT = None, env_PUBLIC_URL = None, MAX_FILE_SIZE = 100\<rparr>"

definition cfg_public :: config where
  "cfg_public = \<lparr>env_PORT = Some (lit ''8080''), env_PUBLIC_URL = Some (lit ''https://img.example''),
                  MAX_FILE_SIZE = 100\<rparr>"

text \<open>
  A piece of the case table: the dotted capital I becomes \<open>i\<close> and a combining dot, the
  Kelvin sign becomes \<open>k\<close>.
\<close>

definition table0 :: "nat list \<Rightarrow> nat \<Rightarrow> nat list \<Rightarrow> nat list" where
  "table0 prev c rest = (if c = 0x130 then [0x69, 0x307] else if c = 0x212A then [0x6B] else [c])"

definition w0 :: world where
  "w0 = \<lparr>now = 17, random_int = 5, fresh_user_id = ''u1'', fresh_image_id = ''i1'',
          db_now = 18, upsert_fails = False, create_fails = False,
          findMany_fails = False, count_fails = False, Lowercase_Mapping = table0\<rparr>"

definition row1 :: image_row where
  "row1 = \<lparr>image_id = ''a'', filename = lit ''1-1.png'', originalName = lit ''x.png'',
            mimeType = ''image/png'', size_bytes = 3, width = Some 1, height = Some 2,
            uploadedAt = 10, userId = ''u''\<rparr>"

definition row2 :: image_row where
  "row2 = \<lparr>image_id = ''b'', filename = lit ''2-2.jpg'', originalName = lit ''y.jpg'',
            mimeType = ''image/jpeg'', size_bytes = 4, width = Some 3, height = Some 4,
            uploadedAt = 30, userId = ''u''\<rparr>"

definition row3 :: image_row where
  "row3 = \<lparr>image_id = ''c'', filename = lit ''3-3.jpg'', originalName = lit ''z.jpg'',
            mimeType = ''image/jpeg'', size_bytes = 5, width = Some 5, height = Some 6,
            uploadedAt = 20, userId = ''u''\<rparr>"

definition st3 :: store where
  "st3 = \<lparr>files = [lit ''1-1.png'' \<mapsto> [1, 2, 3], lit ''2-2.jpg'' \<mapsto> [1, 2, 3, 4],
                    lit ''3-3.jpg'' \<mapsto> [1, 2, 3, 4, 5]],
           users = [\<lparr>user_id = ''u'', email = demoEmail, username = demoUsername\<rparr>],
           images = [row1, row2, row3]\<rparr>"

definition q_page :: list_query where
  "q_page = \<lparr>q_limit = Some (QStr (lit ''2'')), q_offset = Some (QStr (lit ''1''))\<rparr>"

definition q_zero :: list_query where
  "q_zero = \<lparr>q_limit = Some (QStr (lit ''0'')), q_offset = None\<rparr>"

definition q_bad :: list_query where
  "q_bad = \<lparr>q_limit = Some (QStr (lit ''abc'')), q_offset = Some (QStr (lit ''-5''))\<rparr>"

definition q_big :: list_query where
  "q_big = \<lparr>q_limit = None, q_offset = Some (QStr (lit ''9007199254740993''))\<rparr>"

definition q_up :: list_query where
  "q_up = \<lparr>q_limit = None, q_offset = Some (QStr (lit ''9007199254740995''))\<rparr>"

text \<open>An offset of 310 digits.\<close>

definition q_huge :: list_query where
  "q_huge = \<lparr>q_limit = None, q_offset = Some (QStr (replicate 310 49))\<rparr>"

text \<open>A limit written as a no-break space and the digit 5.\<close>

definition q_nbsp :: list_query where
  "q_nbsp = \<lparr>q_limit = Some (QStr (0xA0 # lit ''5'')), q_offset = None\<rparr>"

definition png_part :: file_part where
  "png_part = \<lparr>originalname = lit ''a.PNG'', mimetype = ''image/png'', content = [1, 2, 3]\<rparr>"

definition gif_part :: file_part where
  "gif_part = \<lparr>originalname = lit ''b.gif'', mimetype = ''image/gif'', content = [4, 5]\<rparr>"

definition decode_ok :: decoder where
  "decode_ok b = Some (Dimensions (Some 800) (Some 1200))"

definition decode_zero :: decoder where
  "decode_zero b = Some (Dimensions (Some 0) (Some 1200))"

definition decode_negative :: decoder where
  "decode_negative b = Some (Dimensions (Some (- 1)) (Some 10))"

definition w_create_fails :: world where
  "w_create_fails = w0\<lparr>create_fails := True\<rparr>"

definition row_new :: image_row where
  "row_new = \<lparr>image_id = ''i1'', filename = lit ''17-5.png'', originalName = lit ''a.PNG'',
               mimeType = ''image/png'', size_bytes = 3, width = Some 800, height = Some 1200,
               uploadedAt = 18, userId = ''u''\<rparr>"

definition out_net :: fetch_outcome where
  "out_net = FetchRejects (JsError ''TypeError'' ''Failed to fetch'')"

definition out_503 :: fetch_outcome where
  "out_503 = FetchResolves False (JsonResolves (JObj [(''error'', JStr ''unavailable'')]))"

definition out_ok :: fetch_outcome where
  "out_ok = FetchResolves True
     (JsonResolves (JObj [(''total'', JNum 1), (''items'', JArr [JStr ''img''])]))"

definition out_no_items :: fetch_outcome where
  "out_no_items = FetchResolves True (JsonResolves (JObj [(''items'', JStr ''none'')]))"

definition out_null :: fetch_outcome where
  "out_null = FetchResolves True (JsonResolves JNull)"

definition out_abort :: fetch_outcome where
  "out_abort = FetchRejects (JsError ''AbortError'' ''The operation was aborted.'')"

definition v_old :: rendered where
  "v_old = \<lparr>items = [JStr ''old''], error = None, loading = False\<rparr>"

chapter \<open>Properties\<close>

section \<open>Numbers\<close>

subsection \<open>Rounding to a double\<close>

lemma bitlen_le_iff: "bitlen n \<le> k \<longleftrightarrow> n < 2 ^ k"
proof (induction k arbitrary: n)
  case 0
  show ?case by (subst bitlen.simps) simp
next
  case (Suc k)
  have "bitlen n \<le> Suc k \<longleftrightarrow> n = 0 \<or> bitlen (n div 2) \<le> k"
    by (subst bitlen.simps) simp
  also have "\<dots> \<longleftrightarrow> n = 0 \<or> n div 2 < 2 ^ k"
    by (simp add: Suc.IH)
  also have "\<dots> \<longleftrightarrow> n < 2 ^ Suc k"
    by auto
  finally show ?case .
qed

lemma to_double_small: "n < 2 ^ 53 \<Longrightarrow> to_double n = Some n"
  by (simp add: to_double_def bitlen_le_iff)

lemma round_even_lower: "(n div 2 ^ e) * 2 ^ e \<le> round_even n e"
  by (simp add: round_even_def Let_def)

lemma to_double_large:
  assumes "2 ^ 53 \<le> n"
  shows "to_double n = None \<or> (\<exists>m. to_double n = Some m \<and> 2 ^ 53 \<le> m)"
proof -
  define e where "e = bitlen n - 53"
  have b: "\<not> bitlen n \<le> 53" using assms by (simp add: bitlen_le_iff)
  then have "\<not> bitlen n \<le> 52 + e" by (simp add: e_def)
  then have "2 ^ (52 + e) \<le> n" by (simp add: bitlen_le_iff)
  then have "2 ^ 52 * 2 ^ e \<le> n" by (simp add: power_add)
  then have "2 ^ 52 \<le> n div 2 ^ e"
    by (simp add: less_eq_div_iff_mult_less_eq)
  then have "2 ^ 52 * 2 ^ e \<le> (n div 2 ^ e) * 2 ^ e" by simp
  moreover have "(2::nat) ^ 53 \<le> 2 ^ 52 * 2 ^ e"
  proof -
    have "1 \<le> e" using b by (simp add: e_def)
    then have "(2::nat) ^ 1 \<le> 2 ^ e" by (rule power_increasing) simp
    then show ?thesis by simp
  qed
  ultimately have "2 ^ 53 \<le> round_even n e"
    using round_even_lower [of n e] by linarith
  then show ?thesis using b by (simp add: to_double_def e_def Let_def)
qed

lemma number_of_int_small: "\<bar>i\<bar> < 2 ^ 53 \<Longrightarrow> number_of_int i = Num i"
proof -
  assume a: "\<bar>i\<bar> < 2 ^ 53"
  then have "nat \<bar>i\<bar> < 2 ^ 53" by (simp add: nat_less_iff)
  then show ?thesis by (auto simp: number_of_int_def to_double_small)
qed

lemma number_of_int_large:
  assumes "2 ^ 53 \<le> i"
  shows "number_of_int i = PosInf \<or> (\<exists>m. number_of_int i = Num m \<and> 2 ^ 53 \<le> m)"
proof -
  have "2 ^ 53 \<le> nat \<bar>i\<bar>" using assms by (simp add: le_nat_iff)
  from to_double_large [OF this] assms show ?thesis
    by (auto simp: number_of_int_def)
qed

lemma number_of_int_small_large:
  assumes "i \<le> - (2 ^ 53)"
  shows "number_of_int i = NegInf \<or> (\<exists>m. number_of_int i = Num m \<and> m \<le> - (2 ^ 53))"
proof -
  have "2 ^ 53 \<le> nat \<bar>i\<bar>" using assms by (simp add: le_nat_iff)
  from to_double_large [OF this] assms show ?thesis
    by (auto simp: number_of_int_def)
qed


lemma round_even_near:
  assumes "1 \<le> e"
  shows "2 ^ e dvd round_even n e \<and>
         2 * \<bar>int (round_even n e) - int n\<bar> \<le> 2 ^ e \<and>
         (2 * \<bar>int (round_even n e) - int n\<bar> = 2 ^ e \<longrightarrow> even (round_even n e div 2 ^ e))"
proof -
  define q where "q = n div 2 ^ e"
  define r where "r = n mod 2 ^ e"
  define h where "h = (2::nat) ^ (e - 1)"
  define m where "m = round_even n e"
  have p: "(2::nat) ^ e = 2 * h"
    using assms by (simp add: h_def power_eq_if)
  have "n = q * 2 ^ e + r"
    unfolding q_def r_def by (rule div_mult_mod_eq [symmetric])
  then have n: "int n = int q * (2 * int h) + int r"
    by (simp add: p)
  have "r < 2 ^ e"
    unfolding r_def by simp
  then have r: "r < 2 * h"
    by (simp only: p)
  have hpos: "0 < h" by (simp add: h_def)
  have re: "m = (if h < r \<or> (r = h \<and> odd q) then q + 1 else q) * 2 ^ e"
    by (simp add: m_def round_even_def Let_def q_def r_def h_def)
  have goal: "2 * h dvd m \<and> 2 * \<bar>int m - int n\<bar> \<le> 2 * int h \<and>
         (2 * \<bar>int m - int n\<bar> = 2 * int h \<longrightarrow> even (m div (2 * h)))"
  proof (cases "h < r \<or> (r = h \<and> odd q)")
    case True
    then have "m = (q + 1) * 2 ^ e"
      by (simp only: re if_True)
    then have mm: "m = (q + 1) * (2 * h)"
      by (simp only: p)
    then have im: "int m = (int q + 1) * (2 * int h)"
      by (simp add: algebra_simps)
    have d: "int m - int n = 2 * int h - int r"
      by (simp add: im n algebra_simps)
    have dv: "m div (2 * h) = q + 1"
      using hpos by (simp add: mm)
    have "2 * h dvd m" by (simp add: mm)
    moreover have "2 * \<bar>int m - int n\<bar> \<le> 2 * int h"
      using True r by (auto simp: d)
    moreover have "2 * \<bar>int m - int n\<bar> = 2 * int h \<longrightarrow> even (m div (2 * h))"
    proof
      assume "2 * \<bar>int m - int n\<bar> = 2 * int h"
      then have "r = h" using r by (simp add: d)
      with True have "odd q" by simp
      then show "even (m div (2 * h))" by (simp only: dv) simp
    qed
    ultimately show ?thesis by blast
  next
    case False
    then have "m = q * 2 ^ e"
      by (simp only: re if_False)
    then have mm: "m = q * (2 * h)"
      by (simp only: p)
    then have im: "int m = int q * (2 * int h)"
      by simp
    have d: "int m - int n = - int r"
      by (simp add: im n)
    have dv: "m div (2 * h) = q"
      using hpos by (simp add: mm)
    have "2 * h dvd m" by (simp add: mm)
    moreover have "2 * \<bar>int m - int n\<bar> \<le> 2 * int h"
      using False r by (auto simp: d)
    moreover have "2 * \<bar>int m - int n\<bar> = 2 * int h \<longrightarrow> even (m div (2 * h))"
    proof
      assume "2 * \<bar>int m - int n\<bar> = 2 * int h"
      then have "r = h" by (simp add: d)
      with False have "even q" by simp
      then show "even (m div (2 * h))" by (simp only: dv)
    qed
    ultimately show ?thesis by blast
  qed
  have pi: "(2::int) ^ e = 2 * int h"
    using p by (metis of_nat_numeral of_nat_power of_nat_mult)
  show ?thesis
    using goal unfolding m_def [symmetric] p pi by simp
qed

lemma round_even_upper:
  assumes "n < 2 ^ (53 + e)"
  shows "round_even n e \<le> 2 ^ (53 + e)"
proof -
  have "n div 2 ^ e < 2 ^ 53"
    using assms by (simp add: less_mult_imp_div_less power_add)
  then have "(if 2 ^ (e - 1) < n mod 2 ^ e \<or> (n mod 2 ^ e = 2 ^ (e - 1) \<and> odd (n div 2 ^ e))
      then n div 2 ^ e + 1 else n div 2 ^ e) \<le> 2 ^ 53"
    by simp
  then have "round_even n e \<le> 2 ^ 53 * 2 ^ e"
    unfolding round_even_def Let_def by (rule mult_le_mono1)
  then show ?thesis by (simp add: power_add)
qed

lemma bitlen_upper: "n < 2 ^ bitlen n"
  using bitlen_le_iff [of n "bitlen n"] by simp

lemma pow_facts:
  fixes A :: nat
  assumes "A = (2::nat) ^ 970"
  shows "(2::nat) ^ 971 = 2 * A" "(2::nat) ^ 1023 = 2 ^ 53 * A" "(2::nat) ^ 1024 = 2 ^ 54 * A"
    "(2::nat) ^ 1024 - 2 ^ 970 = (2 ^ 54 - 1) * A" "0 < A"
proof -
  show "(2::nat) ^ 971 = 2 * A" "(2::nat) ^ 1023 = 2 ^ 53 * A" "(2::nat) ^ 1024 = 2 ^ 54 * A"
    unfolding assms by (simp_all add: power_add [symmetric])
  then show "(2::nat) ^ 1024 - 2 ^ 970 = (2 ^ 54 - 1) * A"
    unfolding assms [symmetric] by (simp add: diff_mult_distrib)
  show "0 < A" by (simp add: assms)
qed

lemma to_double_finite:
  assumes small: "n < 2 ^ 1023"
  shows "to_double n \<noteq> None"
proof (cases "bitlen n \<le> 53")
  case True
  then show ?thesis by (simp add: to_double_def)
next
  case False
  define e where "e = bitlen n - 53"
  have b: "bitlen n = 53 + e" using False by (simp add: e_def)
  have "bitlen n \<le> 1023" using small by (simp add: bitlen_le_iff)
  then have e: "53 + e \<le> 1023" using b by simp
  have "n < 2 ^ (53 + e)" using bitlen_upper [of n] b by simp
  then have "round_even n e \<le> 2 ^ (53 + e)" by (rule round_even_upper)
  also have "\<dots> \<le> (2::nat) ^ 1023" using e by (intro power_increasing) simp_all
  also have "\<dots> < (2::nat) ^ 1024" by (intro power_strict_increasing) simp_all
  finally have "\<not> 2 ^ 1024 \<le> round_even n (bitlen n - 53)" by (simp add: e_def)
  then show ?thesis using False unfolding to_double_def Let_def by simp
qed

lemma to_double_infinite:
  assumes big: "2 ^ 1024 \<le> n"
  shows "to_double n = None"
proof -
  have nb: "\<not> bitlen n \<le> 53"
  proof -
    have "(2::nat) ^ 53 \<le> 2 ^ 1024" by (intro power_increasing) simp_all
    from this big have "2 ^ 53 \<le> n" by (rule le_trans)
    then show ?thesis by (simp add: bitlen_le_iff)
  qed
  define e where "e = bitlen n - 53"
  have "\<not> bitlen n \<le> 1024" using big by (simp add: bitlen_le_iff)
  then have e: "972 \<le> e" by (simp add: e_def)
  have "\<not> bitlen n \<le> 52 + e" using nb by (simp add: e_def)
  then have "2 ^ (52 + e) \<le> n" by (simp add: bitlen_le_iff)
  then have "2 ^ 52 * 2 ^ e \<le> n" by (simp add: power_add)
  then have "2 ^ 52 \<le> n div 2 ^ e"
    by (simp add: less_eq_div_iff_mult_less_eq)
  then have "2 ^ 52 * 2 ^ e \<le> (n div 2 ^ e) * 2 ^ e" by (rule mult_le_mono1)
  from this round_even_lower [of n e] have "2 ^ 52 * 2 ^ e \<le> round_even n e" by (rule le_trans)
  then have "2 ^ (52 + e) \<le> round_even n e"
    by (simp only: power_add)
  moreover have "(2::nat) ^ 1024 \<le> 2 ^ (52 + e)"
    using e by (intro power_increasing) simp_all
  ultimately have "2 ^ 1024 \<le> round_even n e" by (rule le_trans [rotated])
  then have "2 ^ 1024 \<le> round_even n (bitlen n - 53)" by (simp only: e_def)
  then show ?thesis
    using nb unfolding to_double_def Let_def by simp
qed

lemma to_double_band:
  assumes mid: "2 ^ 1023 \<le> n" "n < 2 ^ 1024"
  shows "to_double n = None \<longleftrightarrow> 2 ^ 1024 - 2 ^ 970 \<le> n"
proof -
  define A where "A = (2::nat) ^ 970"
  note pw = pow_facts [OF A_def]
  have b: "bitlen n = 1024"
  proof -
    have "\<not> bitlen n \<le> 1023" using mid(1) by (simp add: bitlen_le_iff)
    moreover have "bitlen n \<le> 1024" using mid(2) by (simp add: bitlen_le_iff)
    ultimately show ?thesis by simp
  qed
  define m where "m = round_even n 971"
  have "to_double n = None \<longleftrightarrow> 2 ^ 1024 \<le> m"
    unfolding to_double_def Let_def b m_def by simp
  then have td: "to_double n = None \<longleftrightarrow> 2 ^ 54 * A \<le> m"
    by (simp only: pw(3))
  have pi: "(2::int) ^ 971 = 2 * int A"
    using pw(1) by (metis of_nat_numeral of_nat_power of_nat_mult)
  have near: "2 * A dvd m" "2 * \<bar>int m - int n\<bar> \<le> 2 * int A"
      "2 * \<bar>int m - int n\<bar> = 2 * int A \<longrightarrow> even (m div (2 * A))"
    using round_even_near [of 971 n] unfolding m_def [symmetric] pw(1) pi by simp_all
  obtain k where k: "m = 2 * A * k" using near(1) by (auto simp: dvd_def)
  have kd: "m div (2 * A) = k" using pw(5) by (simp add: k)
  have im: "int m = 2 * int A * int k" by (simp add: k)
  have thr: "2 ^ 1024 - 2 ^ 970 \<le> n \<longleftrightarrow> (2 ^ 54 - 1) * int A \<le> int n"
  proof -
    have "int ((2 ^ 54 - 1) * A) = (2 ^ 54 - 1) * int A" by simp
    then show ?thesis unfolding pw(4) by (metis of_nat_le_iff)
  qed
  have tdi: "to_double n = None \<longleftrightarrow> 2 ^ 54 * int A \<le> int m"
  proof -
    have "int (2 ^ 54 * A) = 2 ^ 54 * int A" by simp
    then show ?thesis unfolding td by (metis of_nat_le_iff)
  qed
  have Ai: "0 < int A" using pw(5) by simp
  show ?thesis
  proof
    assume "to_double n = None"
    then have "2 ^ 54 * int A \<le> int m" by (simp only: tdi)
    with near(2) have "(2 ^ 54 - 1) * int A \<le> int n"
      by (simp add: algebra_simps)
    then show "2 ^ 1024 - 2 ^ 970 \<le> n" by (simp only: thr)
  next
    assume "2 ^ 1024 - 2 ^ 970 \<le> n"
    then have nge: "(2 ^ 54 - 1) * int A \<le> int n" by (simp only: thr)
    show "to_double n = None"
    proof (rule ccontr)
      assume "to_double n \<noteq> None"
      then have "int m < 2 ^ 54 * int A" by (simp add: tdi)
      then have "int A * (2 * int k) < int A * 2 ^ 54" by (simp add: im algebra_simps)
      then have "2 * int k < 2 ^ 54" using Ai by (simp only: mult_less_cancel_left_pos)
      then have km: "int k \<le> 2 ^ 53 - 1" by simp
      have "int A * int k \<le> int A * (2 ^ 53 - 1)"
        using km Ai by (simp only: mult_le_cancel_left_pos)
      then have mle: "int m \<le> (2 ^ 54 - 2) * int A"
        by (simp add: im algebra_simps)
      from mle nge near(2) have eq: "int m = (2 ^ 54 - 2) * int A" "2 * \<bar>int m - int n\<bar> = 2 * int A"
        by (simp_all add: algebra_simps)
      with near(3) have ev: "even k" by (simp add: kd)
      have "int A * (2 * int k) = int A * (2 ^ 54 - 2)"
        using eq(1) by (simp add: im algebra_simps)
      then have "2 * int k = 2 ^ 54 - 2" using Ai by simp
      then have "int k = 2 ^ 53 - 1" by simp
      then have "odd (int k)" by simp
      with ev show False by simp
    qed
  qed
qed

lemma to_double_None_iff: "to_double n = None \<longleftrightarrow> 2 ^ 1024 - 2 ^ 970 \<le> n"
proof -
  consider (small) "n < 2 ^ 1023" | (mid) "2 ^ 1023 \<le> n" "n < 2 ^ 1024" | (big) "2 ^ 1024 \<le> n"
    by linarith
  then show ?thesis
  proof cases
    case small
    define A where "A = (2::nat) ^ 970"
    note pw = pow_facts [OF A_def]
    have "(2::nat) ^ 53 * A \<le> (2 ^ 54 - 1) * A" by (rule mult_le_mono1) simp
    then have "\<not> 2 ^ 1024 - 2 ^ 970 \<le> n"
      using small unfolding pw(2) pw(4) by simp
    with to_double_finite [OF small] show ?thesis by simp
  next
    case mid
    then show ?thesis by (rule to_double_band)
  next
    case big
    have "2 ^ 1024 - 2 ^ 970 \<le> (2::nat) ^ 1024" by (rule diff_le_self)
    from this big have "2 ^ 1024 - 2 ^ 970 \<le> n" by (rule le_trans)
    with to_double_infinite [OF big] show ?thesis by simp
  qed
qed

text \<open>
  The double of a positive integer: the integer itself below \<open>2 ^ 53\<close>; infinite from
  \<open>2 ^ 1024 - 2 ^ 970\<close> on; in between, for an integer of \<open>53 + e\<close> bits, the nearest
  multiple of \<open>2 ^ e\<close>, the even one of two that are equally near.
\<close>

lemma number_of_int_positive:
  assumes "0 < n"
  shows "if n < 2 ^ 53 then number_of_int n = Num n
         else if 2 ^ 1024 - 2 ^ 970 \<le> n then number_of_int n = PosInf
         else (\<exists>m e. number_of_int n = Num m \<and> 2 ^ 53 \<le> m \<and>
                 2 ^ (52 + e) \<le> n \<and> n < 2 ^ (53 + e) \<and> 1 \<le> e \<and>
                 2 ^ e dvd m \<and> 2 * \<bar>m - n\<bar> \<le> 2 ^ e \<and>
                 (2 * \<bar>m - n\<bar> = 2 ^ e \<longrightarrow> even (m div 2 ^ e)))"
proof -
  define k where "k = nat n"
  have n: "n = int k" "\<not> n < 0" "\<bar>n\<bar> = n" using assms by (simp_all add: k_def)
  have thr: "(2 ^ 1024 - 2 ^ 970 \<le> n) = (2 ^ 1024 - 2 ^ 970 \<le> k)"
  proof -
    have "int (2 ^ 1024 - 2 ^ 970) = 2 ^ 1024 - 2 ^ 970"
      by (subst of_nat_diff) simp_all
    then show ?thesis unfolding n(1) by (metis of_nat_le_iff)
  qed
  have lt53: "(n < 2 ^ 53) = (k < 2 ^ 53)"
    unfolding n(1) by (metis of_nat_less_iff of_nat_numeral of_nat_power)
  show ?thesis
  proof (cases "n < 2 ^ 53")
    case True
    then show ?thesis using assms by (simp add: number_of_int_small)
  next
    case False
    then have "\<not> k < 2 ^ 53" unfolding lt53 .
    then have k53: "2 ^ 53 \<le> k" by simp
    show ?thesis
    proof (cases "2 ^ 1024 - 2 ^ 970 \<le> n")
      case True
      then have "to_double k = None" by (simp only: thr to_double_None_iff)
      then have "number_of_int n = PosInf"
        using n(2) by (simp add: number_of_int_def n(3) k_def [symmetric])
      with False True show ?thesis by simp
    next
      case inf: False
      then have "to_double k \<noteq> None" by (simp only: thr to_double_None_iff) simp
      then obtain m where m: "to_double k = Some m" by auto
      define e where "e = bitlen k - 53"
      have nb: "\<not> bitlen k \<le> 53" using k53 by (simp add: bitlen_le_iff)
      then have e1: "1 \<le> e" and b: "bitlen k = 53 + e" by (simp_all add: e_def)
      have mr: "m = round_even k e"
        using m nb by (simp add: to_double_def Let_def e_def split: if_splits)
      have "\<not> bitlen k \<le> 52 + e" using b by simp
      then have lo: "2 ^ (52 + e) \<le> k" by (simp add: bitlen_le_iff)
      have hi: "k < 2 ^ (53 + e)" using bitlen_upper [of k] b by simp
      have m53: "2 ^ 53 \<le> m" using to_double_large [OF k53] m by simp
      have near: "2 ^ e dvd m" "2 * \<bar>int m - int k\<bar> \<le> 2 ^ e"
          "2 * \<bar>int m - int k\<bar> = 2 ^ e \<longrightarrow> even (m div 2 ^ e)"
        using round_even_near [OF e1, of k] by (simp_all add: mr)
      have num: "number_of_int n = Num (int m)"
        using n(2) m by (simp add: number_of_int_def n(3) k_def [symmetric])
      have i1: "(2::int) ^ 53 \<le> int m"
        using m53 by (metis of_nat_le_iff of_nat_numeral of_nat_power)
      have i2: "(2::int) ^ (52 + e) \<le> n" "n < 2 ^ (53 + e)"
        using lo hi unfolding n(1)
        by (metis of_nat_le_iff of_nat_numeral of_nat_power,
            metis of_nat_less_iff of_nat_numeral of_nat_power)
      have i3: "(2::int) ^ e dvd int m"
        using near(1) by (metis of_nat_dvd_iff of_nat_numeral of_nat_power)
      have i4: "even (int m div 2 ^ e) = even (m div 2 ^ e)"
        by (metis even_of_nat of_nat_numeral of_nat_power zdiv_int)
      have "\<exists>m' e'. number_of_int n = Num m' \<and> 2 ^ 53 \<le> m' \<and>
                 2 ^ (52 + e') \<le> n \<and> n < 2 ^ (53 + e') \<and> 1 \<le> e' \<and>
                 2 ^ e' dvd m' \<and> 2 * \<bar>m' - n\<bar> \<le> 2 ^ e' \<and>
                 (2 * \<bar>m' - n\<bar> = 2 ^ e' \<longrightarrow> even (m' div 2 ^ e'))"
        using num i1 i2 i3 i4 e1 near(2,3) unfolding n(1) [symmetric]
        by (intro exI [of _ "int m"] exI [of _ e]) (simp add: n(1))
      with False inf show ?thesis by simp
    qed
  qed
qed

lemma number_of_int_not_NaN: "number_of_int i \<noteq> NaN"
  by (simp add: number_of_int_def split: option.splits)

lemma number_of_int_zero_iff: "number_of_int i = Num 0 \<longleftrightarrow> i = 0"
proof (cases "\<bar>i\<bar> < 2 ^ 53")
  case True
  then show ?thesis by (simp add: number_of_int_small)
next
  case False
  then consider "2 ^ 53 \<le> i" | "i \<le> - (2 ^ 53)" by linarith
  then show ?thesis
  proof cases
    case 1
    with number_of_int_large [OF 1] show ?thesis by auto
  next
    case 2
    with number_of_int_small_large [OF 2] show ?thesis by auto
  qed
qed

lemma number_of_int_negative:
  assumes "i < 0"
  shows "number_of_int i = NegInf \<or> (\<exists>m<0. number_of_int i = Num m)"
proof (cases "\<bar>i\<bar> < 2 ^ 53")
  case True
  with assms show ?thesis by (simp add: number_of_int_small)
next
  case False
  with assms have "i \<le> - (2 ^ 53)" by linarith
  from number_of_int_small_large [OF this] show ?thesis by auto
qed

section \<open>Listing\<close>

lemmas mathInt_eval =
  mathInt_def stripSign_def isWhiteSpace_def isDigit_def digitsVal_def digitVal_def lit_def

lemma mathInt_20: "mathInt (lit ''20'') = Some 20"
  by (simp add: mathInt_eval)

lemma mathInt_0: "mathInt (lit ''0'') = Some 0"
  by (simp add: mathInt_eval)

text \<open>A string is not numeric when, after white space and a sign, it does not start with a digit.\<close>

lemma mathInt_None_iff:
  "mathInt s = None \<longleftrightarrow>
     (case snd (stripSign (dropWhile isWhiteSpace s)) of [] \<Rightarrow> True | u # r \<Rightarrow> \<not> isDigit u)"
  by (auto simp: mathInt_def Let_def split: prod.splits list.splits)

lemma parseInt_NaN_iff: "parseInt s = NaN \<longleftrightarrow> mathInt s = None"
  by (simp add: parseInt_def number_of_int_not_NaN split: option.splits)

lemma parseInt_zero_iff: "parseInt s = Num 0 \<longleftrightarrow> mathInt s = Some 0"
  by (simp add: parseInt_def number_of_int_zero_iff split: option.splits)

lemma parseInt_20: "parseInt (lit ''20'') = Num 20"
  by (simp add: parseInt_def mathInt_20 number_of_int_small)

lemma parseInt_0: "parseInt (lit ''0'') = Num 0"
  by (simp add: parseInt_def mathInt_0 number_of_int_small)

lemma parseInt_param:
  "parseInt (js_String (nullish_or v d)) =
     (case v of None \<Rightarrow> parseInt (lit d)
      | Some x \<Rightarrow> (case requested v of None \<Rightarrow> NaN | Some n \<Rightarrow> number_of_int n))"
proof (cases v)
  case None
  then show ?thesis by (simp add: nullish_or_def)
next
  case (Some x)
  then show ?thesis
    by (cases "mathInt (js_String x)") (simp_all add: nullish_or_def requested_def parseInt_def)
qed

lemma clamp_number:
  "Math_min (Math_max (Num i) (Num 1)) (Num 100) = Num (clamp 1 100 i)"
  by (simp add: Math_min_def Math_max_def clamp_def)

lemma limit_of_int:
  assumes "n \<noteq> 0"
  shows "Math_min (Math_max (num_or (number_of_int n) (Num 20)) (Num 1)) (Num 100) =
         Num (clamp 1 100 n)"
proof -
  have nz: "num_or (number_of_int n) (Num 20) = number_of_int n"
    using assms by (simp add: num_or_def number_of_int_not_NaN number_of_int_zero_iff)
  consider (small) "\<bar>n\<bar> < 2 ^ 53" | (up) "2 ^ 53 \<le> n" | (down) "n \<le> - (2 ^ 53)"
    by linarith
  then show ?thesis
  proof cases
    case small
    then have e: "number_of_int n = Num n" by (rule number_of_int_small)
    show ?thesis unfolding nz unfolding e by (rule clamp_number)
  next
    case up
    from number_of_int_large [OF up] up show ?thesis
      unfolding nz by (auto simp: Math_min_def Math_max_def clamp_def)
  next
    case down
    from number_of_int_small_large [OF down] down show ?thesis
      unfolding nz by (auto simp: Math_min_def Math_max_def clamp_def)
  qed
qed

text \<open>What a parameter gives when the client asked for no number: the default's value or \<open>NaN\<close>.\<close>

lemma parseInt_no_request:
  assumes "requested v = None"
  shows "parseInt (js_String (nullish_or v d)) = parseInt (lit d) \<or>
         parseInt (js_String (nullish_or v d)) = NaN"
  using assms by (cases v) (simp_all add: parseInt_param)

lemma parseInt_request:
  assumes "requested v = Some n"
  shows "parseInt (js_String (nullish_or v d)) = number_of_int n"
  using assms by (cases v) (simp_all add: parseInt_param requested_def)

lemma effective_limit_requested:
  "effective_limit q =
     Num (case requested (q_limit q) of None \<Rightarrow> 20 | Some n \<Rightarrow> if n = 0 then 20 else clamp 1 100 n)"
proof (cases "requested (q_limit q)")
  case None
  from parseInt_no_request [OF None, of "''20''"]
  have "num_or (parseInt (js_String (nullish_or (q_limit q) ''20''))) (Num 20) = Num 20"
    by (auto simp: parseInt_20 num_or_def)
  then have "effective_limit q = Num 20"
    unfolding effective_limit_def by (simp add: Math_min_def Math_max_def)
  with None show ?thesis by simp
next
  case (Some n)
  note p = parseInt_request [OF Some, of "''20''"]
  show ?thesis
  proof (cases "n = 0")
    case True
    have "number_of_int n = Num 0" using True by (simp add: number_of_int_small)
    then have "effective_limit q = Num 20"
      unfolding effective_limit_def p by (simp add: num_or_def Math_min_def Math_max_def)
    with Some True show ?thesis by simp
  next
    case False
    have "effective_limit q = Num (clamp 1 100 n)"
      unfolding effective_limit_def p by (rule limit_of_int [OF False])
    with Some False show ?thesis by simp
  qed
qed

lemma positive_number:
  assumes "0 < n"
  shows "number_of_int n = PosInf \<or> (\<exists>m>0. number_of_int n = Num m)"
proof (cases "n < 2 ^ 53")
  case True
  with assms show ?thesis by (simp add: number_of_int_small)
next
  case False
  then have "2 ^ 53 \<le> n" by simp
  from number_of_int_large [OF this] show ?thesis by auto
qed

lemma effective_offset_requested:
  "effective_offset q =
     (case requested (q_offset q) of None \<Rightarrow> Num 0
      | Some n \<Rightarrow> if n \<le> 0 then Num 0 else number_of_int n)"
proof (cases "requested (q_offset q)")
  case None
  from parseInt_no_request [OF None, of "''0''"]
  have "num_or (parseInt (js_String (nullish_or (q_offset q) ''0''))) (Num 0) = Num 0"
    by (auto simp: parseInt_0 num_or_def)
  then have "effective_offset q = Num 0"
    unfolding effective_offset_def by (simp add: Math_max_def)
  with None show ?thesis by simp
next
  case (Some n)
  note p = parseInt_request [OF Some, of "''0''"]
  consider (zero) "n = 0" | (neg) "n < 0" | (pos) "0 < n" by linarith
  then show ?thesis
  proof cases
    case zero
    have "number_of_int n = Num 0" using zero by (simp add: number_of_int_small)
    then have "effective_offset q = Num 0"
      unfolding effective_offset_def p by (simp add: num_or_def Math_max_def)
    with Some zero show ?thesis by simp
  next
    case neg
    from number_of_int_negative [OF neg] have "effective_offset q = Num 0"
      unfolding effective_offset_def p by (auto simp: num_or_def Math_max_def)
    with Some neg show ?thesis by simp
  next
    case pos
    from positive_number [OF pos] have "effective_offset q = number_of_int n"
      unfolding effective_offset_def p by (auto simp: num_or_def Math_max_def)
    with Some pos show ?thesis by simp
  qed
qed

lemma effective_limit_cases: "\<exists>L. effective_limit q = Num L \<and> 1 \<le> L \<and> L \<le> 100"
  by (auto simp: effective_limit_requested clamp_def split: option.splits)

lemma effective_offset_cases:
  "effective_offset q = PosInf \<or> (\<exists>off\<ge>0. effective_offset q = Num off)"
proof (cases "requested (q_offset q)")
  case None
  then show ?thesis by (simp add: effective_offset_requested)
next
  case (Some n)
  show ?thesis
  proof (cases "n \<le> 0")
    case True
    with Some show ?thesis by (simp add: effective_offset_requested)
  next
    case False
    then have pos: "0 < n" by simp
    from positive_number [OF pos] Some False show ?thesis
      by (auto simp: effective_offset_requested)
  qed
qed

lemma order_desc_mset: "mset (order_desc rows) = mset rows"
  by (simp add: order_desc_def)

lemma order_desc_sorted:
  "sorted_wrt (\<lambda>a b. uploadedAt b \<le> uploadedAt a) (order_desc rows)"
proof -
  have "sorted (map uploadedAt (sort_key uploadedAt rows))"
    by (rule sorted_sort_key)
  then have "sorted_wrt (\<lambda>a b. uploadedAt a \<le> uploadedAt b) (sort_key uploadedAt rows)"
    by (simp add: sorted_wrt_map)
  then show ?thesis
    by (simp add: order_desc_def sorted_wrt_rev)
qed

lemma order_desc_length: "length (order_desc rows) = length rows"
  by (simp add: order_desc_def)

lemma list_images_ok:
  "\<not> findMany_fails w \<Longrightarrow> \<not> count_fails w \<Longrightarrow>
   list_images cfg w q st =
     (st, Response 200 (ListBody (length (images st)) (JSON_number (effective_limit q))
        (JSON_number (effective_offset q))
        (map (to_dto cfg) (findMany (images st) (effective_limit q) (effective_offset q)))))"
  by (simp add: list_images_def Let_def)

lemma findMany_finite:
  "0 \<le> L \<Longrightarrow> 0 \<le> off \<Longrightarrow>
   findMany rows (Num L) (Num off) = take (nat L) (drop (nat off) (order_desc rows)) \<and>
   int (length (findMany rows (Num L) (Num off))) = min L (max (int (length rows) - off) 0)"
  by (auto simp: findMany_def take_rows_def skip_rows_def order_desc_length)

lemma findMany_infinite: "findMany rows (Num L) PosInf = []"
  by (simp add: findMany_def take_rows_def skip_rows_def)

lemma findMany_empty: "findMany [] tk sk = []"
  by (simp add: findMany_def take_rows_def skip_rows_def order_desc_def split: number.splits)

lemma to_dto_explicit:
  "to_dto cfg r =
     \<lparr> dto_id = image_id r, dto_filename = filename r, dto_originalName = originalName r,
       dto_mimeType = mimeType r, dto_size = size_bytes r, dto_width = width r,
       dto_height = height r,
       dto_url =
         (case env_PUBLIC_URL cfg of
            None \<Rightarrow> lit ''http://localhost:'' @
                     (case env_PORT cfg of None \<Rightarrow> lit ''3001''
                      | Some p \<Rightarrow> if p = [] then lit ''3001'' else p)
          | Some u \<Rightarrow>
              if u = []
              then lit ''http://localhost:'' @
                     (case env_PORT cfg of None \<Rightarrow> lit ''3001''
                      | Some p \<Rightarrow> if p = [] then lit ''3001'' else p)
              else u) @ lit ''/uploads/'' @ filename r,
       dto_uploadedAt = uploadedAt r \<rparr>"
  by (simp add: to_dto_def publicBase_def PORT_def str_or_def split: option.splits)

text \<open>
  C6. When the two reads of the metadata store succeed, the listing leaves the store as it
  was and answers 200. The effective limit is a number \<open>L\<close> from 1 to 100 and the
  effective offset is a number \<open>off\<close> of at least 0, or infinite. The total is the number
  of stored records. The items are made from the records in descending order of their
  creation timestamp (a rearrangement of the stored records, sorted newest first), without
  the first \<open>off\<close> and cut after \<open>L\<close>, so there are \<open>min L (max (total - off) 0)\<close> of
  them; after an infinite offset there is none, and the offset is echoed as \<^verbatim>\<open>null\<close>. An
  empty store gives no items and total 0. Every item repeats the fields of its record, and
  its URL is the configured base (\<^verbatim>\<open>PUBLIC_URL\<close> if it is set and not empty, otherwise
  \<^verbatim>\<open>http://localhost:\<close> and the port, 3001 by default), \<^verbatim>\<open>/uploads/\<close> and the record's
  storage name.
\<close>

theorem listing_page:
  assumes "\<not> findMany_fails w" and "\<not> count_fails w"
  shows "\<exists>L rows.
     effective_limit q = Num L \<and> 1 \<le> L \<and> L \<le> 100 \<and>
     (effective_offset q = PosInf \<or> (\<exists>off\<ge>0. effective_offset q = Num off)) \<and>
     (\<forall>off. effective_offset q = Num off \<longrightarrow>
        rows = take (nat L) (drop (nat off) (order_desc (images st))) \<and>
        int (length rows) = min L (max (int (length (images st)) - off) 0)) \<and>
     (effective_offset q = PosInf \<longrightarrow> rows = []) \<and>
     mset (order_desc (images st)) = mset (images st) \<and>
     sorted_wrt (\<lambda>a b. uploadedAt b \<le> uploadedAt a) (order_desc (images st)) \<and>
     (images st = [] \<longrightarrow> rows = [] \<and> length (images st) = 0) \<and>
     list_images cfg w q st =
       (st, Response 200
          (ListBody (length (images st)) (Some L)
             (case effective_offset q of Num off \<Rightarrow> Some off | _ \<Rightarrow> None)
             (map (\<lambda>r.
                \<lparr> dto_id = image_id r, dto_filename = filename r,
                  dto_originalName = originalName r, dto_mimeType = mimeType r,
                  dto_size = size_bytes r, dto_width = width r, dto_height = height r,
                  dto_url =
                    (case env_PUBLIC_URL cfg of
                       None \<Rightarrow> lit ''http://localhost:'' @
                                (case env_PORT cfg of None \<Rightarrow> lit ''3001''
                                 | Some p \<Rightarrow> if p = [] then lit ''3001'' else p)
                     | Some u \<Rightarrow>
                         if u = []
                         then lit ''http://localhost:'' @
                                (case env_PORT cfg of None \<Rightarrow> lit ''3001''
                                 | Some p \<Rightarrow> if p = [] then lit ''3001'' else p)
                         else u) @ lit ''/uploads/'' @ filename r,
                  dto_uploadedAt = uploadedAt r \<rparr>) rows)))"
proof -
  obtain L where L: "effective_limit q = Num L" "1 \<le> L" "L \<le> 100"
    using effective_limit_cases [of q] by blast
  define rows where "rows = findMany (images st) (effective_limit q) (effective_offset q)"
  note oc = effective_offset_cases [of q]
  have fin: "rows = take (nat L) (drop (nat off) (order_desc (images st))) \<and>
        int (length rows) = min L (max (int (length (images st)) - off) 0)"
    if "effective_offset q = Num off" for off
  proof -
    have "0 \<le> off" using oc that by auto
    moreover have "0 \<le> L" using L by simp
    ultimately show ?thesis
      unfolding rows_def that L(1) by (rule findMany_finite [rotated])
  qed
  have inf: "effective_offset q = PosInf \<longrightarrow> rows = []"
    by (simp add: rows_def L findMany_infinite)
  have emp: "images st = [] \<longrightarrow> rows = [] \<and> length (images st) = 0"
    by (simp add: rows_def findMany_empty)
  have dto: "map (to_dto cfg) rows =
      map (\<lambda>r.
                \<lparr> dto_id = image_id r, dto_filename = filename r,
                  dto_originalName = originalName r, dto_mimeType = mimeType r,
                  dto_size = size_bytes r, dto_width = width r, dto_height = height r,
                  dto_url =
                    (case env_PUBLIC_URL cfg of
                       None \<Rightarrow> lit ''http://localhost:'' @
                                (case env_PORT cfg of None \<Rightarrow> lit ''3001''
                                 | Some p \<Rightarrow> if p = [] then lit ''3001'' else p)
                     | Some u \<Rightarrow>
                         if u = []
                         then lit ''http://localhost:'' @
                                (case env_PORT cfg of None \<Rightarrow> lit ''3001''
                                 | Some p \<Rightarrow> if p = [] then lit ''3001'' else p)
                         else u) @ lit ''/uploads/'' @ filename r,
                  dto_uploadedAt = uploadedAt r \<rparr>) rows"
    by (rule map_cong [OF refl]) (rule to_dto_explicit)
  have resp: "list_images cfg w q st =
       (st, Response 200
          (ListBody (length (images st)) (Some L)
             (case effective_offset q of Num off \<Rightarrow> Some off | _ \<Rightarrow> None)
             (map (to_dto cfg) rows)))"
    using list_images_ok [OF assms, of cfg q st]
    by (simp add: rows_def L JSON_number_def)
  have fin': "\<forall>off. effective_offset q = Num off \<longrightarrow>
        rows = take (nat L) (drop (nat off) (order_desc (images st))) \<and>
        int (length rows) = min L (max (int (length (images st)) - off) 0)"
    using fin by blast
  have oc': "effective_offset q = PosInf \<or> (\<exists>off\<ge>0. effective_offset q = Num off)"
    using oc by blast
  show ?thesis
    apply (rule exI [of _ L])
    apply (rule exI [of _ rows])
    apply (intro conjI)
             apply (rule L(1))
            apply (rule L(2))
           apply (rule L(3))
          apply (rule oc')
         apply (rule fin')
        apply (rule inf)
       apply (rule order_desc_mset)
      apply (rule order_desc_sorted)
     apply (rule emp)
    apply (rule resp [unfolded dto])
    done
qed

lemmas example_rows = row1_def row2_def row3_def

lemma order_desc_st3: "order_desc (images st3) = [row2, row3, row1]"
  by (simp add: order_desc_def st3_def example_rows)

lemma q_page_requested:
  "requested (q_limit q_page) = Some 2" "requested (q_offset q_page) = Some 1"
  by (simp_all add: requested_def q_page_def mathInt_eval)

lemma q_page_effective: "effective_limit q_page = Num 2" "effective_offset q_page = Num 1"
  by (simp_all add: effective_limit_requested effective_offset_requested q_page_requested
      clamp_def number_of_int_small)

lemma lit_append: "lit (a @ b) = lit a @ lit b"
  by (simp add: lit_def)

theorem listing_page_witness:
  "\<not> findMany_fails w0 \<and> \<not> count_fails w0 \<and>
   list_images cfg_public w0 q_page st3 =
     (st3, Response 200 (ListBody 3 (Some 2) (Some 1)
        [\<lparr>dto_id = ''c'', dto_filename = lit ''3-3.jpg'', dto_originalName = lit ''z.jpg'',
          dto_mimeType = ''image/jpeg'', dto_size = 5, dto_width = Some 5, dto_height = Some 6,
          dto_url = lit ''https://img.example/uploads/3-3.jpg'', dto_uploadedAt = 20\<rparr>,
         \<lparr>dto_id = ''a'', dto_filename = lit ''1-1.png'', dto_originalName = lit ''x.png'',
          dto_mimeType = ''image/png'', dto_size = 3, dto_width = Some 1, dto_height = Some 2,
          dto_url = lit ''https://img.example/uploads/1-1.png'', dto_uploadedAt = 10\<rparr>]))"
proof -
  have f: "\<not> findMany_fails w0" "\<not> count_fails w0"
    by (simp_all add: w0_def)
  have n: "length (images st3) = 3"
    by (simp add: st3_def)
  have c: "env_PUBLIC_URL cfg_public = Some (lit ''https://img.example'')"
      "lit ''https://img.example'' \<noteq> []"
    by (simp_all add: cfg_public_def lit_def)
  have u: "lit ''https://img.example'' @ lit ''/uploads/'' @ lit ''3-3.jpg'' =
        lit ''https://img.example/uploads/3-3.jpg''"
      "lit ''https://img.example'' @ lit ''/uploads/'' @ lit ''1-1.png'' =
        lit ''https://img.example/uploads/1-1.png''"
    by (simp_all add: lit_def)
  from listing_page [OF f, of q_page st3 cfg_public] show ?thesis
    using f by (auto simp: q_page_effective order_desc_st3 n c u) (simp_all add: example_rows u)
qed

lemma bitlen_eq: "2 ^ k \<le> n \<Longrightarrow> n < 2 ^ Suc k \<Longrightarrow> bitlen n = Suc k"
  using bitlen_le_iff [of n "Suc k"] bitlen_le_iff [of n k] by simp

lemma to_double_ties:
  "to_double 9007199254740993 = Some 9007199254740992"
  "to_double 9007199254740995 = Some 9007199254740996"
proof -
  have "bitlen 9007199254740993 = Suc 53" by (rule bitlen_eq) simp_all
  then show "to_double 9007199254740993 = Some 9007199254740992"
    by (simp add: to_double_def round_even_def Let_def)
  have "bitlen 9007199254740995 = Suc 53" by (rule bitlen_eq) simp_all
  then show "to_double 9007199254740995 = Some 9007199254740996"
    by (simp add: to_double_def round_even_def Let_def)
qed

lemma number_of_int_ties:
  "number_of_int 9007199254740993 = Num 9007199254740992"
  "number_of_int 9007199254740995 = Num 9007199254740996"
  by (simp_all add: number_of_int_def to_double_ties)

lemma q_zero_requested: "requested (q_limit q_zero) = Some 0"
  by (simp add: requested_def q_zero_def mathInt_eval)

lemma q_big_requested: "requested (q_offset q_big) = Some 9007199254740993"
  by (simp add: requested_def q_big_def mathInt_eval)

lemma q_up_requested: "requested (q_offset q_up) = Some 9007199254740995"
  by (simp add: requested_def q_up_def mathInt_eval)

lemma digitsVal_ones: "digitsVal (replicate n 49) * 9 + 1 = 10 ^ n"
proof -
  have "foldl (\<lambda>a u. 10 * a + digitVal u) a (replicate n 49) * 9 + 1 = (a * 9 + 1) * 10 ^ n"
    for a
    by (induction n arbitrary: a) (simp_all add: digitVal_def algebra_simps)
  from this [of 0] show ?thesis by (simp add: digitsVal_def)
qed

lemma q_huge_requested:
  "\<exists>n. requested (q_offset q_huge) = Some n \<and> 2 ^ 1024 - 2 ^ 970 \<le> n"
proof -
  have z: "takeWhile isDigit (replicate 310 49) = replicate 310 49"
    by (simp add: takeWhile_replicate isDigit_def)
  have w: "dropWhile isWhiteSpace (replicate 310 49) = replicate 310 49"
    by (simp add: dropWhile_replicate isWhiteSpace_def)
  have "(310::nat) = Suc 309" by simp
  then have c: "replicate 310 (49::nat) = 49 # replicate 309 49"
    by (simp only: replicate_Suc)
  have s: "stripSign (replicate 310 49) = (1, replicate 310 49)"
    unfolding stripSign_def c by simp
  have d: "isDigit 49" "\<not> isWhiteSpace 49"
    by (simp_all add: isDigit_def isWhiteSpace_def)
  have r: "requested (q_offset q_huge) = Some (int (digitsVal (replicate 310 49)))"
    by (simp add: requested_def q_huge_def mathInt_def d s)
  have "(2::nat) ^ 1024 \<le> digitsVal (replicate 310 49)"
  proof -
    have "(2::nat) ^ 1024 * 9 + 1 \<le> 10 ^ 310" by simp
    then have "(2::nat) ^ 1024 * 9 + 1 \<le> digitsVal (replicate 310 49) * 9 + 1"
      by (simp only: digitsVal_ones)
    then show ?thesis by simp
  qed
  then have "(2::int) ^ 1024 \<le> int (digitsVal (replicate 310 49))"
    by (metis of_nat_le_iff of_nat_numeral of_nat_power)
  then have "(2::int) ^ 1024 - 2 ^ 970 \<le> int (digitsVal (replicate 310 49))" by simp
  with r show ?thesis by blast
qed

text \<open>
  C7, as the claim has it. The limit \<^verbatim>\<open>0\<close> is a requested limit of 0, which clamped to
  the bounds is 1; the code's effective limit is 20. The offset \<^verbatim>\<open>9007199254740993\<close> is
  at least 0, so clamping leaves it as it is; the code's effective offset, the one it
  skips by and echoes, is 9007199254740992.
\<close>

theorem limit_zero_is_not_clamped:
  "requested (q_limit q_zero) = Some 0 \<and> clamp 1 100 0 = 1 \<and>
   effective_limit q_zero = Num 20 \<and>
   requested (q_offset q_big) = Some 9007199254740993 \<and>
   max 9007199254740993 0 = (9007199254740993 :: int) \<and>
   effective_offset q_big = Num 9007199254740992 \<and>
   snd (list_images cfg0 w0 q_big st3) =
     Response 200 (ListBody 3 (Some 20) (Some 9007199254740992) [])"
proof -
  have l: "effective_limit q_zero = Num 20"
    by (simp add: effective_limit_requested q_zero_requested)
  have o: "effective_offset q_big = Num 9007199254740992"
    by (simp add: effective_offset_requested q_big_requested number_of_int_ties)
  have l': "effective_limit q_big = Num 20"
    by (simp add: effective_limit_requested requested_def q_big_def)
  have "snd (list_images cfg0 w0 q_big st3) =
     Response 200 (ListBody 3 (Some 20) (Some 9007199254740992) [])"
    by (simp add: list_images_ok w0_def o l' JSON_number_def findMany_def take_rows_def
        skip_rows_def order_desc_length st3_def)
  with l o show ?thesis
    by (simp add: q_zero_requested q_big_requested clamp_def)
qed

text \<open>
  C7, amended. The effective limit is 20 when the limit is absent, not numeric or reads
  as 0, and otherwise the requested limit clamped to the bounds 1 to 100. The effective
  offset is 0 when the offset is absent, not numeric or at most 0; a requested offset
  \<open>n\<close> below \<open>2 ^ 53\<close> is kept; one from \<open>2 ^ 1024 - 2 ^ 970\<close> on becomes infinite; one
  in between, of \<open>53 + e\<close> bits, becomes the multiple of \<open>2 ^ e\<close> nearest to \<open>n\<close>, the
  even multiple at a tie. When the two reads of the metadata store succeed the answer is
  200 and carries the total, the effective limit, the effective offset (\<^verbatim>\<open>null\<close> for the
  infinite one) and the items.
\<close>

theorem effective_parameters:
  "effective_limit q =
     Num (case requested (q_limit q) of None \<Rightarrow> 20
          | Some n \<Rightarrow> if n = 0 then 20 else clamp 1 100 n) \<and>
   (case requested (q_offset q) of
      None \<Rightarrow> effective_offset q = Num 0
    | Some n \<Rightarrow>
        if n \<le> 0 then effective_offset q = Num 0
        else if n < 2 ^ 53 then effective_offset q = Num n
        else if 2 ^ 1024 - 2 ^ 970 \<le> n then effective_offset q = PosInf
        else (\<exists>m e. effective_offset q = Num m \<and> 2 ^ 53 \<le> m \<and>
                2 ^ (52 + e) \<le> n \<and> n < 2 ^ (53 + e) \<and> 1 \<le> e \<and>
                2 ^ e dvd m \<and> 2 * \<bar>m - n\<bar> \<le> 2 ^ e \<and>
                (2 * \<bar>m - n\<bar> = 2 ^ e \<longrightarrow> even (m div 2 ^ e)))) \<and>
   (\<not> findMany_fails w \<and> \<not> count_fails w \<longrightarrow>
      (\<exists>L its. effective_limit q = Num L \<and>
         list_images cfg w q st =
           (st, Response 200 (ListBody (length (images st)) (Some L)
                  (case effective_offset q of Num off \<Rightarrow> Some off | _ \<Rightarrow> None) its))))"
proof (intro conjI)
  show "effective_limit q =
     Num (case requested (q_limit q) of None \<Rightarrow> 20
          | Some n \<Rightarrow> if n = 0 then 20 else clamp 1 100 n)"
    by (rule effective_limit_requested)
next
  show "case requested (q_offset q) of
      None \<Rightarrow> effective_offset q = Num 0
    | Some n \<Rightarrow>
        if n \<le> 0 then effective_offset q = Num 0
        else if n < 2 ^ 53 then effective_offset q = Num n
        else if 2 ^ 1024 - 2 ^ 970 \<le> n then effective_offset q = PosInf
        else (\<exists>m e. effective_offset q = Num m \<and> 2 ^ 53 \<le> m \<and>
                2 ^ (52 + e) \<le> n \<and> n < 2 ^ (53 + e) \<and> 1 \<le> e \<and>
                2 ^ e dvd m \<and> 2 * \<bar>m - n\<bar> \<le> 2 ^ e \<and>
                (2 * \<bar>m - n\<bar> = 2 ^ e \<longrightarrow> even (m div 2 ^ e)))"
  proof (cases "requested (q_offset q)")
    case None
    then show ?thesis by (simp add: effective_offset_requested)
  next
    case (Some n)
    show ?thesis
    proof (cases "n \<le> 0")
      case True
      with Some show ?thesis by (simp add: effective_offset_requested)
    next
      case False
      then have e: "effective_offset q = number_of_int n"
        using Some by (simp add: effective_offset_requested)
      from False have "0 < n" by simp
      from number_of_int_positive [OF this] Some False show ?thesis
        unfolding e by simp
    qed
  qed
next
  show "\<not> findMany_fails w \<and> \<not> count_fails w \<longrightarrow>
      (\<exists>L its. effective_limit q = Num L \<and>
         list_images cfg w q st =
           (st, Response 200 (ListBody (length (images st)) (Some L)
                  (case effective_offset q of Num off \<Rightarrow> Some off | _ \<Rightarrow> None) its)))"
  proof
    assume a: "\<not> findMany_fails w \<and> \<not> count_fails w"
    obtain L where L: "effective_limit q = Num L"
      using effective_limit_cases [of q] by blast
    from a have "list_images cfg w q st =
        (st, Response 200 (ListBody (length (images st)) (Some L)
          (case effective_offset q of Num off \<Rightarrow> Some off | _ \<Rightarrow> None)
          (map (to_dto cfg) (findMany (images st) (effective_limit q) (effective_offset q)))))"
      by (simp add: list_images_ok L JSON_number_def)
    with L show "\<exists>L its. effective_limit q = Num L \<and>
         list_images cfg w q st =
           (st, Response 200 (ListBody (length (images st)) (Some L)
                  (case effective_offset q of Num off \<Rightarrow> Some off | _ \<Rightarrow> None) its))"
      by blast
  qed
qed

theorem effective_parameters_witness:
  "requested (q_limit q_page) = Some 2 \<and> requested (q_offset q_page) = Some 1 \<and>
   effective_limit q_page = Num 2 \<and> effective_offset q_page = Num 1 \<and>
   \<not> findMany_fails w0 \<and> \<not> count_fails w0 \<and>
   (\<exists>its. list_images cfg0 w0 q_page st3 =
      (st3, Response 200 (ListBody 3 (Some 2) (Some 1) its))) \<and>
   requested (q_limit q_bad) = None \<and> requested (q_offset q_bad) = Some (- 5) \<and>
   effective_limit q_bad = Num 20 \<and> effective_offset q_bad = Num 0 \<and>
   (\<exists>n. requested (q_offset q_huge) = Some n \<and> 2 ^ 1024 - 2 ^ 970 \<le> n) \<and>
   effective_offset q_huge = PosInf \<and>
   (\<exists>its. list_images cfg0 w0 q_huge st3 =
      (st3, Response 200 (ListBody 3 (Some 20) None its))) \<and>
   requested (q_offset q_up) = Some 9007199254740995 \<and>
   effective_offset q_up = Num 9007199254740996"
proof -
  have u: "effective_offset q_up = Num 9007199254740996"
    by (simp add: effective_offset_requested q_up_requested number_of_int_ties)
  have f: "\<not> findMany_fails w0" "\<not> count_fails w0"
    by (simp_all add: w0_def)
  have n: "length (images st3) = 3"
    by (simp add: st3_def)
  have b: "requested (q_limit q_bad) = None" "requested (q_offset q_bad) = Some (- 5)"
    by (simp_all add: requested_def q_bad_def mathInt_eval)
  have hl: "requested (q_limit q_huge) = None"
    by (simp add: requested_def q_huge_def)
  obtain h where h: "requested (q_offset q_huge) = Some h" "2 ^ 1024 - 2 ^ 970 \<le> h"
    using q_huge_requested by blast
  have "(2::int) ^ 53 \<le> 2 ^ 1024 - 2 ^ 970" by simp
  with h(2) have "2 ^ 53 \<le> h" by (rule order_trans [rotated])
  then have hp: "\<not> h \<le> 0" "\<not> h < 2 ^ 53"
    by simp_all
  from effective_parameters [of q_page w0 cfg0 st3]
  have 1: "effective_limit q_page = Num 2 \<and> effective_offset q_page = Num 1 \<and>
     (\<exists>its. list_images cfg0 w0 q_page st3 =
        (st3, Response 200 (ListBody 3 (Some 2) (Some 1) its)))"
    using f by (auto simp: q_page_requested clamp_def n)
  from effective_parameters [of q_bad w0 cfg0 st3]
  have 2: "effective_limit q_bad = Num 20 \<and> effective_offset q_bad = Num 0"
    by (simp add: b)
  note e = effective_parameters [of q_huge w0 cfg0 st3]
  from e have "effective_limit q_huge = Num 20"
    by (simp add: hl)
  moreover from e have "case requested (q_offset q_huge) of
      None \<Rightarrow> effective_offset q_huge = Num 0
    | Some n \<Rightarrow>
        if n \<le> 0 then effective_offset q_huge = Num 0
        else if n < 2 ^ 53 then effective_offset q_huge = Num n
        else if 2 ^ 1024 - 2 ^ 970 \<le> n then effective_offset q_huge = PosInf
        else (\<exists>m e. effective_offset q_huge = Num m \<and> 2 ^ 53 \<le> m \<and>
                2 ^ (52 + e) \<le> n \<and> n < 2 ^ (53 + e) \<and> 1 \<le> e \<and>
                2 ^ e dvd m \<and> 2 * \<bar>m - n\<bar> \<le> 2 ^ e \<and>
                (2 * \<bar>m - n\<bar> = 2 ^ e \<longrightarrow> even (m div 2 ^ e)))"
    by (rule conjunct1 [OF conjunct2])
  then have o: "effective_offset q_huge = PosInf"
    unfolding h(1) option.case if_not_P [OF hp(1)] if_not_P [OF hp(2)] if_P [OF h(2)] .
  moreover from e have "\<not> findMany_fails w0 \<and> \<not> count_fails w0 \<longrightarrow>
      (\<exists>L its. effective_limit q_huge = Num L \<and>
         list_images cfg0 w0 q_huge st3 =
           (st3, Response 200 (ListBody (length (images st3)) (Some L)
                  (case effective_offset q_huge of Num off \<Rightarrow> Some off | _ \<Rightarrow> None) its)))"
    by (rule conjunct2 [OF conjunct2])
  with f have "\<exists>L its. effective_limit q_huge = Num L \<and>
         list_images cfg0 w0 q_huge st3 =
           (st3, Response 200 (ListBody (length (images st3)) (Some L)
                  (case effective_offset q_huge of Num off \<Rightarrow> Some off | _ \<Rightarrow> None) its))"
    by blast
  ultimately have 3: "effective_offset q_huge = PosInf \<and>
     (\<exists>its. list_images cfg0 w0 q_huge st3 =
        (st3, Response 200 (ListBody 3 (Some 20) None its)))"
    unfolding o n by auto
  from 1 2 3 show ?thesis
    using f b h u by (simp add: q_page_requested q_up_requested)
qed

text \<open>
  C9. A limit that is absent, not numeric (\<^verbatim>\<open>parseInt\<close> gives \<open>NaN\<close>: after the leading
  white space and an optional sign there is no digit) or that parses to 0 gives the
  effective limit 20. An offset that is absent, not numeric or negative gives the
  effective offset 0. Whatever the two parameters are, the listing answers 200 unless a
  read of the metadata store fails.
\<close>

theorem pagination_defaults:
  "((q_limit q = None \<or>
     (\<exists>v. q_limit q = Some v \<and>
        (parseInt (js_String v) = NaN \<or> parseInt (js_String v) = Num 0))) \<longrightarrow>
      effective_limit q = Num 20) \<and>
   ((q_offset q = None \<or>
     (\<exists>v. q_offset q = Some v \<and>
        (parseInt (js_String v) = NaN \<or> parseInt (js_String v) = NegInf \<or>
         (\<exists>n<0. parseInt (js_String v) = Num n)))) \<longrightarrow>
      effective_offset q = Num 0) \<and>
   (parseInt s = NaN \<longleftrightarrow>
      (case snd (stripSign (dropWhile isWhiteSpace s)) of [] \<Rightarrow> True
       | u # r \<Rightarrow> \<not> isDigit u)) \<and>
   (parseInt s = Num 0 \<longleftrightarrow> mathInt s = Some 0) \<and>
   status (snd (list_images cfg w q st)) =
     (if findMany_fails w \<or> count_fails w then 500 else 200)"
proof (intro conjI)
  show "(q_limit q = None \<or>
     (\<exists>v. q_limit q = Some v \<and>
        (parseInt (js_String v) = NaN \<or> parseInt (js_String v) = Num 0))) \<longrightarrow>
      effective_limit q = Num 20"
    by (auto simp: effective_limit_def nullish_or_def parseInt_20 num_or_def
        Math_max_def Math_min_def)
next
  show "(q_offset q = None \<or>
     (\<exists>v. q_offset q = Some v \<and>
        (parseInt (js_String v) = NaN \<or> parseInt (js_String v) = NegInf \<or>
         (\<exists>n<0. parseInt (js_String v) = Num n)))) \<longrightarrow>
      effective_offset q = Num 0"
    by (auto simp: effective_offset_def nullish_or_def parseInt_0 num_or_def
        Math_max_def)
next
  show "parseInt s = NaN \<longleftrightarrow>
      (case snd (stripSign (dropWhile isWhiteSpace s)) of [] \<Rightarrow> True
       | u # r \<Rightarrow> \<not> isDigit u)"
    by (simp only: parseInt_NaN_iff mathInt_None_iff)
next
  show "parseInt s = Num 0 \<longleftrightarrow> mathInt s = Some 0"
    by (rule parseInt_zero_iff)
next
  show "status (snd (list_images cfg w q st)) =
     (if findMany_fails w \<or> count_fails w then 500 else 200)"
    by (simp add: list_images_def Let_def next_err_def multer_error_handler_def
        error_handler_def)
qed

theorem pagination_defaults_witness:
  "q_limit q_bad = Some (QStr (lit ''abc'')) \<and> parseInt (lit ''abc'') = NaN \<and>
   effective_limit q_bad = Num 20 \<and>
   q_offset q_bad = Some (QStr (lit ''-5'')) \<and> parseInt (lit ''-5'') = Num (- 5) \<and>
   effective_offset q_bad = Num 0 \<and>
   q_limit q_zero = Some (QStr (lit ''0'')) \<and> parseInt (lit ''0'') = Num 0 \<and>
   effective_limit q_zero = Num 20 \<and>
   status (snd (list_images cfg0 w0 q_bad st3)) = 200 \<and>
   parseInt (0xA0 # lit ''5'') = Num 5 \<and> effective_limit q_nbsp = Num 5"
proof -
  have p: "parseInt (lit ''abc'') = NaN" "parseInt (lit ''-5'') = Num (- 5)"
      "parseInt (lit ''0'') = Num 0" "parseInt (0xA0 # lit ''5'') = Num 5"
    by (simp_all add: parseInt_def mathInt_eval number_of_int_small)
  have q: "q_limit q_bad = Some (QStr (lit ''abc''))" "q_offset q_bad = Some (QStr (lit ''-5''))"
      "q_limit q_zero = Some (QStr (lit ''0''))"
    by (simp_all add: q_bad_def q_zero_def)
  have n: "effective_limit q_nbsp = Num 5"
    by (simp add: effective_limit_def q_nbsp_def nullish_or_def p num_or_def Math_max_def
        Math_min_def)
  from pagination_defaults [of q_bad "[]" cfg0 w0 st3] pagination_defaults [of q_zero "[]" cfg0 w0 st3]
  show ?thesis
    by (simp add: p q n w0_def)
qed

section \<open>The filename allocator\<close>

subsection \<open>The shape of an extension\<close>

lemma free_of_down: "free_of path c (Suc i) e \<Longrightarrow> path ! i \<noteq> c \<Longrightarrow> free_of path c i e"
  unfolding free_of_def by (metis le_antisym not_less_eq_eq)

lemma free_of_vacuous: "e \<le> int n \<Longrightarrow> free_of path c n e"
  unfolding free_of_def by auto

lemma ext_inv_startPart: "ext_inv path n (s\<lparr>startPart := p\<rparr>) = ext_inv path n s"
  by (simp add: ext_inv_def)

lemma ext_inv_preDot: "ext_inv path n (s\<lparr>preDotState := p\<rparr>) = ext_inv path n s"
  by (simp add: ext_inv_def)

lemma ext_inv_slash:
  "ext_inv path (Suc i) s \<Longrightarrow> matchedSlash s \<Longrightarrow> ext_inv path i s"
  by (auto simp: ext_inv_def free_of_vacuous)

lemma ext_inv_mark_end:
  assumes inv: "ext_inv path (Suc i) s" and i: "i < length path"
    and ns: "path ! i \<noteq> 47" and nd: "path ! i \<noteq> 46"
  shows "ext_inv path i (if endIdx s = - 1 then s\<lparr>matchedSlash := False, endIdx := int i + 1\<rparr> else s)"
proof (cases "endIdx s = - 1")
  case True
  then have "startDot s = - 1" using inv by (simp add: ext_inv_def)
  moreover have "free_of path c i (int i + 1)" if "path ! i \<noteq> c" for c
    using that by (simp add: free_of_down free_of_vacuous)
  ultimately show ?thesis using True i ns nd by (auto simp: ext_inv_def)
next
  case False
  have "free_of path (47) i (endIdx s)"
    using inv False ns by (simp add: ext_inv_def free_of_down)
  moreover have "startDot s = - 1 \<Longrightarrow> free_of path (46) i (endIdx s)"
    using inv nd by (simp add: ext_inv_def free_of_down)
  ultimately show ?thesis using inv False by (auto simp: ext_inv_def)
qed

lemma ext_inv_dot_first:
  assumes inv: "ext_inv path (Suc i) s" and i: "i < length path"
    and d: "path ! i = 46" and sd: "startDot s = - 1"
  shows "ext_inv path i
     ((if endIdx s = - 1 then s\<lparr>matchedSlash := False, endIdx := int i + 1\<rparr> else s)\<lparr>startDot := int i\<rparr>)"
proof (cases "endIdx s = - 1")
  case True
  have "free_of path (47) i (int i + 1)"
    using d by (simp add: free_of_down free_of_vacuous)
  moreover have "free_of path (46) (Suc i) (int i + 1)"
    by (simp add: free_of_vacuous)
  ultimately show ?thesis using True i d by (auto simp: ext_inv_def)
next
  case False
  have "free_of path (47) i (endIdx s)"
    using inv False d by (simp add: ext_inv_def free_of_down)
  moreover have "free_of path (46) (Suc i) (endIdx s)"
    using inv sd by (simp add: ext_inv_def)
  ultimately show ?thesis using inv False d by (auto simp: ext_inv_def)
qed

lemma ext_inv_dot_later:
  assumes inv: "ext_inv path (Suc i) s" and i: "i < length path"
    and d: "path ! i = 46" and sd: "startDot s \<noteq> - 1"
  shows "ext_inv path i s"
proof -
  have ne: "endIdx s \<noteq> - 1" using inv sd by (auto simp: ext_inv_def)
  have "free_of path (47) i (endIdx s)"
    using inv ne d by (simp add: ext_inv_def free_of_down)
  then show ?thesis using inv sd ne by (auto simp: ext_inv_def)
qed

lemma ext_inv_other:
  assumes inv: "ext_inv path (Suc i) s" and i: "i < length path"
    and ns: "path ! i \<noteq> 47" and nd: "path ! i \<noteq> 46" and sd: "startDot s \<noteq> - 1"
  shows "ext_inv path i s"
proof -
  have ne: "endIdx s \<noteq> - 1" using inv sd by (auto simp: ext_inv_def)
  have "free_of path (47) i (endIdx s)"
    using inv ne ns by (simp add: ext_inv_def free_of_down)
  then show ?thesis using inv sd ne by (auto simp: ext_inv_def)
qed

lemma ext_inv_loop:
  "ext_inv path n s \<Longrightarrow> n \<le> length path \<Longrightarrow> \<exists>m. ext_inv path m (extname_loop path n s)"
proof (induction n arbitrary: s)
  case 0
  then show ?case by auto
next
  case (Suc i)
  have i: "i < length path" "i \<le> length path" using Suc.prems by simp_all
  note inv = Suc.prems(1)
  show ?case
  proof (cases "path ! i = 47")
    case slash: True
    show ?thesis
    proof (cases "matchedSlash s")
      case True
      with slash Suc.IH [OF ext_inv_slash [OF inv True] i(2)]
      show ?thesis by simp
    next
      case False
      have "ext_inv path (Suc i) (s\<lparr>startPart := int i + 1\<rparr>)"
        using inv by (simp add: ext_inv_startPart)
      with slash False show ?thesis by auto
    qed
  next
    case noslash: False
    show ?thesis
    proof (cases "path ! i = 46")
      case dot: True
      show ?thesis
      proof (cases "startDot s = - 1")
        case sd: True
        from Suc.IH [OF ext_inv_dot_first [OF inv i(1) dot sd] i(2)]
        show ?thesis using noslash dot sd by (simp add: Let_def)
      next
        case sd: False
        then have ne: "endIdx s \<noteq> - 1" using inv by (auto simp: ext_inv_def)
        have inv': "ext_inv path i s" by (rule ext_inv_dot_later [OF inv i(1) dot sd])
        show ?thesis
        proof (cases "preDotState s = 1")
          case True
          with Suc.IH [OF inv' i(2)] noslash dot sd ne
          show ?thesis by (simp add: Let_def)
        next
          case False
          from inv' have "ext_inv path i (s\<lparr>preDotState := 1\<rparr>)" by (simp add: ext_inv_preDot)
          from Suc.IH [OF this i(2)] noslash dot sd ne False
          show ?thesis by (simp add: Let_def)
        qed
      qed
    next
      case nodot: False
      show ?thesis
      proof (cases "startDot s = - 1")
        case sd: True
        from Suc.IH [OF ext_inv_mark_end [OF inv i(1) noslash nodot] i(2)]
        show ?thesis using noslash nodot sd by (simp add: Let_def)
      next
        case sd: False
        then have ne: "endIdx s \<noteq> - 1" using inv by (auto simp: ext_inv_def)
        have "ext_inv path i (s\<lparr>preDotState := - 1\<rparr>)"
          using ext_inv_other [OF inv i(1) noslash nodot sd] by (simp add: ext_inv_preDot)
        from Suc.IH [OF this i(2)] noslash nodot sd ne
        show ?thesis by (simp add: Let_def)
      qed
    qed
  qed
qed

lemma ext_inv_init: "ext_inv path n ext_init"
  by (simp add: ext_inv_def ext_init_def free_of_vacuous)

text \<open>The extension is empty, or a dot followed by characters that are neither dots nor slashes.\<close>

lemma extname_shape:
  "extname path = [] \<or>
   (\<exists>x. extname path = 46 # x \<and> 46 \<notin> set x \<and> 47 \<notin> set x)"
proof -
  define s where "s = extname_loop path (length path) ext_init"
  obtain m where inv: "ext_inv path m s"
    using ext_inv_loop [OF ext_inv_init, of "length path" path] s_def by auto
  show ?thesis
  proof (cases "extname path = []")
    case True
    then show ?thesis by simp
  next
    case False
    then have sd: "startDot s \<noteq> - 1" and ext: "extname path = slice path (startDot s) (endIdx s)"
      by (auto simp: extname_def s_def [symmetric] Let_def split: if_splits)
    define a where "a = nat (startDot s)"
    define b where "b = nat (endIdx s)"
    from inv sd have facts: "int a = startDot s" "int b = endIdx s" "a < b" "b \<le> length path"
        "path ! a = 46" "free_of path (46) (Suc a) (int b)"
        "free_of path (47) m (int b)" "m \<le> a"
      by (auto simp: ext_inv_def a_def b_def)
    have ext': "extname path = take (b - a) (drop a path)"
      using ext by (simp add: slice_def a_def b_def)
    have len: "length (extname path) = b - a"
      using facts by (simp add: ext')
    have nth: "extname path ! k = path ! (a + k)" if "k < b - a" for k
      using that facts by (simp add: ext')
    have hd: "extname path ! 0 = 46"
      using nth [of 0] facts by simp
    obtain c x where cx: "extname path = c # x"
      using False by (cases "extname path") auto
    have c: "c = 46" using hd cx by simp
    have "x ! k \<noteq> 46 \<and> x ! k \<noteq> 47" if "k < length x" for k
    proof -
      have k: "Suc k < b - a" using that len cx by simp
      have "x ! k = path ! (a + Suc k)" using nth [OF k] cx by simp
      moreover have "path ! (a + Suc k) \<noteq> 46"
        using facts(6) k unfolding free_of_def by auto
      moreover have "path ! (a + Suc k) \<noteq> 47"
        using facts(7,8) k unfolding free_of_def by auto
      ultimately show ?thesis by simp
    qed
    then have "46 \<notin> set x \<and> 47 \<notin> set x"
      by (metis in_set_conv_nth)
    with cx c show ?thesis by simp
  qed
qed

subsection \<open>The extension of a name with one dot\<close>

lemma loop_step:
  "extname_loop path (Suc i) s =
     (let code = path ! i in
      if code = 47 then
        (if \<not> matchedSlash s then s\<lparr>startPart := int i + 1\<rparr>
         else extname_loop path i s)
      else
        (let s1 = (if endIdx s = - 1 then s\<lparr>matchedSlash := False, endIdx := int i + 1\<rparr> else s);
             s2 = (if code = 46 then
                     (if startDot s1 = - 1 then s1\<lparr>startDot := int i\<rparr>
                      else if preDotState s1 \<noteq> 1 then s1\<lparr>preDotState := 1\<rparr>
                      else s1)
                   else if startDot s1 \<noteq> - 1 then s1\<lparr>preDotState := - 1\<rparr>
                   else s1)
         in extname_loop path i s2))"
  by simp

text \<open>Characters that are neither dots nor slashes, met before any dot: only the end is marked.\<close>

lemma loop_plain:
  assumes "46 \<notin> set b" "47 \<notin> set b" "startDot s = - 1"
  shows "extname_loop (a @ b @ r) (length a + length b) s =
         extname_loop (a @ b @ r) (length a)
           (if b \<noteq> [] \<and> endIdx s = - 1
            then s\<lparr>matchedSlash := False, endIdx := int (length a + length b)\<rparr> else s)"
  using assms
proof (induction b arbitrary: s r rule: rev_induct)
  case Nil
  then show ?case by simp
next
  case (snoc c b)
  let ?path = "a @ (b @ [c]) @ r"
  let ?s1 = "if endIdx s = - 1 then s\<lparr>matchedSlash := False, endIdx := int (length a + length b) + 1\<rparr> else s"
  have c: "c \<noteq> 46" "c \<noteq> 47" using snoc.prems by auto
  have nth: "?path ! (length a + length b) = c"
    by (simp add: nth_append)
  have "extname_loop ?path (length a + length (b @ [c])) s =
        extname_loop ?path (Suc (length a + length b)) s" by simp
  also have "\<dots> = extname_loop ?path (length a + length b) ?s1"
    using c snoc.prems(3) by (simp only: loop_step nth Let_def) simp
  also have "\<dots> = extname_loop (a @ b @ (c # r)) (length a + length b) ?s1" by simp
  also have "\<dots> = extname_loop (a @ b @ (c # r)) (length a)
           (if b \<noteq> [] \<and> endIdx ?s1 = - 1
            then ?s1\<lparr>matchedSlash := False, endIdx := int (length a + length b)\<rparr> else ?s1)"
    using snoc.prems by (intro snoc.IH) auto
  also have "\<dots> = extname_loop ?path (length a) ?s1" by simp
  finally show ?case by (simp add: add.commute)
qed

text \<open>Once the dot and the end are known, the rest of a slash-free component only sets \<open>preDotState\<close>.\<close>

lemma loop_before_dot:
  assumes "47 \<notin> set a" "startDot s \<noteq> - 1" "endIdx s \<noteq> - 1"
  shows "extname_loop (a @ r) (length a) s = s\<lparr>preDotState := pre_dot a (preDotState s)\<rparr>"
  using assms
proof (induction a arbitrary: s r rule: rev_induct)
  case Nil
  then show ?case by (simp add: pre_dot_def)
next
  case (snoc c a)
  let ?path = "(a @ [c]) @ r"
  let ?v = "if c = 46 then 1 else - 1 :: int"
  have c: "c \<noteq> 47" using snoc.prems by auto
  have nth: "?path ! length a = c" by (simp add: nth_append)
  have "extname_loop ?path (length (a @ [c])) s = extname_loop ?path (Suc (length a)) s" by simp
  also have "\<dots> = extname_loop ?path (length a) (s\<lparr>preDotState := ?v\<rparr>)"
  proof (cases "preDotState s = 1")
    case True
    then have eq: "s\<lparr>preDotState := 1\<rparr> = s" by simp
    show ?thesis
      using c snoc.prems(2,3) True by (simp only: loop_step nth Let_def) (simp add: eq)
  next
    case False
    with c snoc.prems(2,3) show ?thesis
      by (simp only: loop_step nth Let_def) auto
  qed
  also have "\<dots> = extname_loop (a @ (c # r)) (length a) (s\<lparr>preDotState := ?v\<rparr>)" by simp
  also have "\<dots> = (s\<lparr>preDotState := ?v\<rparr>)\<lparr>preDotState := pre_dot a (preDotState (s\<lparr>preDotState := ?v\<rparr>))\<rparr>"
    using snoc.prems by (intro snoc.IH) auto
  also have "\<dots> = s\<lparr>preDotState := pre_dot (a @ [c]) (preDotState s)\<rparr>"
    by (cases a) (simp_all add: pre_dot_def)
  finally show ?case .
qed

lemma extname_no_dot:
  assumes "46 \<notin> set p" "47 \<notin> set p"
  shows "extname p = []"
proof -
  have "extname_loop p (length p) ext_init =
        extname_loop ([] @ p @ []) (length ([]::jsstring) + length p) ext_init" by simp
  also have "\<dots> = extname_loop ([] @ p @ []) (length ([]::jsstring))
           (if p \<noteq> [] \<and> endIdx ext_init = - 1
            then ext_init\<lparr>matchedSlash := False, endIdx := int (length ([]::jsstring) + length p)\<rparr> else ext_init)"
    using assms by (intro loop_plain) (simp_all add: ext_init_def)
  finally have "startDot (extname_loop p (length p) ext_init) = - 1"
    by (simp add: ext_init_def)
  then show ?thesis by (simp add: extname_def Let_def)
qed

lemma extname_dot:
  assumes p: "p \<noteq> []" "46 \<notin> set p" "47 \<notin> set p"
    and x: "46 \<notin> set x" "47 \<notin> set x"
  shows "extname (p @ 46 # x) = 46 # x"
proof -
  let ?path = "p @ 46 # x"
  let ?a = "p @ [46]"
  let ?n = "1 + (int (length p) + int (length x))"
  let ?sA = "if x \<noteq> [] \<and> endIdx ext_init = - 1
            then ext_init\<lparr>matchedSlash := False, endIdx := int (length ?a + length x)\<rparr> else ext_init"
  let ?s2 = "\<lparr>startDot = int (length p), startPart = 0, endIdx = ?n, matchedSlash = False, preDotState = 0\<rparr>"
  have nth: "(?a @ x @ []) ! length p = 46" by (simp add: nth_append)
  have "extname_loop ?path (length ?path) ext_init =
        extname_loop (?a @ x @ []) (length ?a + length x) ext_init" by simp
  also have "\<dots> = extname_loop (?a @ x @ []) (length ?a) ?sA"
    using x by (intro loop_plain) (simp_all add: ext_init_def)
  also have "\<dots> = extname_loop (?a @ x @ []) (Suc (length p)) ?sA" by simp
  also have "\<dots> = extname_loop (?a @ x @ []) (length p) ?s2"
    by (simp only: loop_step nth Let_def) (simp add: ext_init_def ac_simps)
  also have "\<dots> = extname_loop (p @ (46 # x)) (length p) ?s2" by simp
  also have "\<dots> = ?s2\<lparr>preDotState := pre_dot p (preDotState ?s2)\<rparr>"
    using p by (intro loop_before_dot) simp_all
  also have "\<dots> = ?s2\<lparr>preDotState := - 1\<rparr>"
    using p by (cases p) (auto simp: pre_dot_def)
  finally have "extname_loop ?path (length ?path) ext_init = ?s2\<lparr>preDotState := - 1\<rparr>" .
  then show ?thesis
    by (simp add: extname_def Let_def slice_def nat_add_distrib)
qed
subsection \<open>Decimal digits\<close>

lemma digit_unit_isDigit: "isDigit (digit_unit n)"
proof -
  have "n mod 10 < 10" by simp
  then show ?thesis unfolding isDigit_def digit_unit_def by linarith
qed

lemma digitVal_digit_unit: "digitVal (digit_unit n) = n mod 10"
  by (simp add: digitVal_def digit_unit_def)

lemma dec_digits: "c \<in> set (dec n) \<Longrightarrow> isDigit c"
proof (induction n arbitrary: c rule: dec.induct)
  case (1 n)
  show ?case
  proof (cases "n < 10")
    case True
    with "1.prems" show ?thesis
      by (subst (asm) dec.simps) (simp add: digit_unit_isDigit)
  next
    case False
    with "1.prems" have "c \<in> set (dec (n div 10)) \<or> c = digit_unit n"
      by (subst (asm) dec.simps) auto
    with "1.IH" [OF False] show ?thesis
      by (auto simp: digit_unit_isDigit)
  qed
qed

lemma dec_nonempty: "dec n \<noteq> []"
  by (subst dec.simps) simp

lemma digitsVal_snoc: "digitsVal (z @ [u]) = 10 * digitsVal z + digitVal u"
  by (simp add: digitsVal_def)

lemma digitsVal_dec: "digitsVal (dec n) = n"
proof (induction n rule: dec.induct)
  case (1 n)
  show ?case
  proof (cases "n < 10")
    case True
    then show ?thesis
      by (subst dec.simps) (simp add: digitsVal_def digitVal_digit_unit)
  next
    case False
    have "digitsVal (dec n) = 10 * digitsVal (dec (n div 10)) + n mod 10"
      using False by (subst dec.simps) (simp add: digitsVal_snoc digitVal_digit_unit)
    with "1.IH" [OF False] show ?thesis by simp
  qed
qed

lemma dec_no_leading_zero: "n \<noteq> 0 \<Longrightarrow> hd (dec n) \<noteq> 48"
proof (induction n rule: dec.induct)
  case (1 n)
  show ?case
  proof (cases "n < 10")
    case True
    with "1.prems" show ?thesis
      by (subst dec.simps) (simp add: digit_unit_def)
  next
    case False
    then have "n div 10 \<noteq> 0" by simp
    from "1.IH" [OF False this] False show ?thesis
      by (subst dec.simps) (simp add: dec_nonempty)
  qed
qed

subsection \<open>Lower case\<close>

lemma utf16_units: "u \<in> set (utf16 c) \<Longrightarrow> u < 0xD800 \<Longrightarrow> u = c"
  by (auto simp: utf16_def split: if_splits)

lemma utf16_small: "c < 0x10000 \<Longrightarrow> utf16 c = [c]"
  by (simp add: utf16_def)

lemma latin1_lower_fixes:
  "d = 46 \<or> d = 47 \<or> d = 92 \<Longrightarrow> latin1_lower c = d \<longleftrightarrow> c = d"
  by (auto simp: latin1_lower_def)

lemma lower_cp_units:
  assumes "safe_table table" and d: "d = 46 \<or> d = 47 \<or> d = 92"
  shows "d \<in> set (concat (map utf16 (lower_cp table prev c rest))) \<longleftrightarrow> c = d"
proof (cases "c < 256")
  case True
  then have "latin1_lower c < 0x10000" by (simp add: latin1_lower_def)
  then show ?thesis
    using True latin1_lower_fixes [OF d, of c] by (auto simp: lower_cp_def utf16_small)
next
  case False
  have s: "d < 0xD800" using d by auto
  have "d \<notin> set (table prev c rest)"
    using assms False unfolding safe_table_def by (metis not_le_imp_less not_less)
  then have "d \<notin> set (concat (map utf16 (table prev c rest)))"
    using utf16_units [OF _ s] by auto
  moreover have "c \<noteq> d" using False d by auto
  ultimately show ?thesis using False by (simp add: lower_cp_def)
qed

lemma lower_units_free:
  assumes "safe_table table" and d: "d = 46 \<or> d = 47 \<or> d = 92"
  shows "d \<in> set (lower_units table b cs) \<longleftrightarrow> d \<in> set cs"
proof (induction cs arbitrary: b)
  case Nil
  show ?case by (simp add: lower_units_def)
next
  case (Cons c cs)
  have "lower_units table b (c # cs) =
      concat (map utf16 (lower_cp table b c cs)) @ lower_units table (b @ [c]) cs"
    by (simp add: lower_units_def)
  then show ?case
    using lower_cp_units [OF assms, of b c cs] Cons.IH [of "b @ [c]"] by auto
qed

lemma code_points_free: "d < 0xD800 \<Longrightarrow> d \<in> set (code_points s) \<longleftrightarrow> d \<in> set s"
  by (induction s rule: code_points.induct) auto

lemma code_points_dot: "code_points (46 # x) = 46 # code_points x"
  by (cases x) simp_all

lemma toLowerCase_units: "toLowerCase table s = lower_units table [] (code_points s)"
  by (simp add: toLowerCase_def lower_units_def)

lemma toLowerCase_free:
  assumes "safe_table table" and d: "d = 46 \<or> d = 47 \<or> d = 92"
  shows "d \<in> set (toLowerCase table s) \<longleftrightarrow> d \<in> set s"
proof -
  have "d < 0xD800" using d by auto
  then show ?thesis
    by (simp add: toLowerCase_units lower_units_free [OF assms] code_points_free)
qed

lemma toLowerCase_dot:
  "toLowerCase table (46 # x) = 46 # lower_units table [46] (code_points x)"
  by (simp add: toLowerCase_units code_points_dot lower_units_def lower_cp_def latin1_lower_def
      utf16_def)

lemma code_points_latin1: "\<forall>u \<in> set s. u < 256 \<Longrightarrow> code_points s = s"
  by (induction s rule: code_points.induct) auto

lemma lower_units_latin1:
  "\<forall>u \<in> set cs. u < 256 \<Longrightarrow> lower_units table b cs = map latin1_lower cs"
proof (induction cs arbitrary: b)
  case Nil
  show ?case by (simp add: lower_units_def)
next
  case (Cons c cs)
  then have c: "c < 256" and r: "\<forall>u \<in> set cs. u < 256" by simp_all
  from c have "latin1_lower c < 0x10000" by (simp add: latin1_lower_def)
  then have "lower_units table b (c # cs) = latin1_lower c # lower_units table (b @ [c]) cs"
    using c by (simp add: lower_units_def lower_cp_def utf16_small)
  with Cons.IH [OF r, of "b @ [c]"] show ?case by simp
qed

lemma toLowerCase_latin1:
  "\<forall>u \<in> set s. u < 256 \<Longrightarrow> toLowerCase table s = map latin1_lower s"
  by (simp add: toLowerCase_units code_points_latin1 lower_units_latin1)

lemma latin1_lower_explicit:
  "latin1_lower =
     (\<lambda>c. if (65 \<le> c \<and> c \<le> 90) \<or> (192 \<le> c \<and> c \<le> 222 \<and> c \<noteq> 215) then c + 32 else c)"
  by (rule ext) (simp add: latin1_lower_def)

subsection \<open>Storage names\<close>

lemma extname_subset: "set (extname path) \<subseteq> set path"
proof -
  have "set (slice path a b) \<subseteq> set path" for a b
    unfolding slice_def by (meson set_take_subset set_drop_subset subset_trans)
  then show ?thesis by (auto simp: extname_def Let_def)
qed

text \<open>The lower-case extension keeps the shape of an extension.\<close>

lemma lower_ext_shape:
  assumes "safe_table table"
  shows "toLowerCase table (extname path) = [] \<or>
   (\<exists>x. toLowerCase table (extname path) = 46 # x \<and> 46 \<notin> set x \<and> 47 \<notin> set x)"
proof -
  from extname_shape [of path] show ?thesis
  proof
    assume "extname path = []"
    then show ?thesis by (simp add: toLowerCase_def)
  next
    assume "\<exists>x. extname path = 46 # x \<and> 46 \<notin> set x \<and> 47 \<notin> set x"
    then obtain x where x: "extname path = 46 # x" "46 \<notin> set x" "47 \<notin> set x"
      by blast
    let ?y = "lower_units table [46] (code_points x)"
    have "toLowerCase table (extname path) = 46 # ?y"
      using x(1) by (simp add: toLowerCase_dot)
    moreover have "46 \<notin> set ?y" "47 \<notin> set ?y"
      using x(2,3) by (simp_all add: lower_units_free [OF assms] code_points_free)
    ultimately show ?thesis by blast
  qed
qed

lemma stem_chars: "c \<in> set (stem w) \<Longrightarrow> isDigit c \<or> c = 45"
  by (auto simp: stem_def lit_def dest: dec_digits)

lemma stem_plain: "stem w \<noteq> []" "46 \<notin> set (stem w)" "47 \<notin> set (stem w)"
    "92 \<notin> set (stem w)" "isDigit (hd (stem w))"
proof -
  show "stem w \<noteq> []" by (simp add: stem_def dec_nonempty)
  show "46 \<notin> set (stem w)" using stem_chars [of 46 w] by (auto simp: isDigit_def)
  show "47 \<notin> set (stem w)" using stem_chars [of 47 w] by (auto simp: isDigit_def)
  show "92 \<notin> set (stem w)" using stem_chars [of 92 w] by (auto simp: isDigit_def)
  have "hd (stem w) = hd (dec (now w))" by (simp add: stem_def dec_nonempty)
  moreover have "hd (dec (now w)) \<in> set (dec (now w))" by (simp add: dec_nonempty)
  ultimately show "isDigit (hd (stem w))" by (simp add: dec_digits)
qed

lemma storage_filename_stem:
  "storage_filename w orig = stem w @ toLowerCase (Lowercase_Mapping w) (extname orig)"
  by (simp add: storage_filename_def stem_def Let_def)

lemma storage_filename_safe:
  assumes t: "safe_table (Lowercase_Mapping w)"
  shows "extname (storage_filename w orig) = toLowerCase (Lowercase_Mapping w) (extname orig) \<and>
      47 \<notin> set (storage_filename w orig) \<and>
      length (filter (\<lambda>c. c = 46) (storage_filename w orig)) \<le> 1 \<and>
      (92 \<notin> set orig \<longrightarrow> 92 \<notin> set (storage_filename w orig))"
proof -
  let ?ext = "toLowerCase (Lowercase_Mapping w) (extname orig)"
  note sp = stem_plain [of w]
  have bs: "92 \<notin> set orig \<longrightarrow> 92 \<notin> set (storage_filename w orig)"
    using sp(4) extname_subset [of orig]
    by (auto simp: storage_filename_stem toLowerCase_free [OF t])
  have rest: "extname (storage_filename w orig) = ?ext \<and>
      47 \<notin> set (storage_filename w orig) \<and>
      length (filter (\<lambda>c. c = 46) (storage_filename w orig)) \<le> 1"
    using lower_ext_shape [OF t, of orig]
  proof
    assume e: "?ext = []"
    have "filter (\<lambda>c. c = 46) (stem w) = []"
      using sp(2) by (auto simp: filter_empty_conv)
    then show ?thesis
      using e sp extname_no_dot [of "stem w"] by (simp add: storage_filename_stem)
  next
    assume "\<exists>x. ?ext = 46 # x \<and> 46 \<notin> set x \<and> 47 \<notin> set x"
    then obtain x where x: "?ext = 46 # x" "46 \<notin> set x" "47 \<notin> set x"
      by blast
    have "filter (\<lambda>c. c = 46) (stem w) = []" "filter (\<lambda>c. c = 46) x = []"
      using sp(2) x(2) by (auto simp: filter_empty_conv)
    then show ?thesis
      using x sp extname_dot [of "stem w" x] by (simp add: storage_filename_stem)
  qed
  from rest bs show ?thesis by blast
qed

lemma dec_17_5: "dec 17 = lit ''17''" "dec 5 = lit ''5''"
proof -
  have "dec 1 = [49]" by (subst dec.simps) (simp add: digit_unit_def)
  then show "dec 17 = lit ''17''"
    by (subst dec.simps) (simp add: digit_unit_def lit_def)
  show "dec 5 = lit ''5''"
    by (subst dec.simps) (simp add: digit_unit_def lit_def)
qed

lemma safe_table0: "safe_table table0"
  by (simp add: safe_table_def table0_def)

text \<open>
  C8. The storage name is the timestamp in decimal digits, a hyphen, the random integer in
  decimal digits and the extension of the original name in lower case. The extension of
  the original name is empty or a dot followed by code units that are neither dots nor
  slashes: the part from the last dot on of a name without slashes that has something
  other than dots in front of that dot, and nothing for a name without a dot. In lower
  case, an extension of code units below 256 has its letters \<open>A\<close> to \<open>Z\<close> and its
  capitals from \<open>0xC0\<close> to \<open>0xDE\<close> (not \<open>0xD7\<close>) moved up by 32 and nothing else changed.
  The storage name starts with a digit, so it is neither \<^verbatim>\<open>.\<close> nor \<^verbatim>\<open>..\<close>, and two
  original names with the same extension get the same storage name from the same clock
  and random number. When no lower-case mapping of the runtime's table for the code points
  from 256 on contains a dot, a slash or a backslash, the storage name has the lower-case
  extension as its own extension, contains no slash (the path separator) and at most one
  dot, and a backslash only if the original name has one.
\<close>

theorem storage_name_shape:
  "storage_filename w orig =
     dec (now w) @ lit ''-'' @ dec (random_int w) @
     toLowerCase (Lowercase_Mapping w) (extname orig) \<and>
   dec (now w) \<noteq> [] \<and> (\<forall>c \<in> set (dec (now w)). isDigit c) \<and>
   digitsVal (dec (now w)) = now w \<and> (now w \<noteq> 0 \<longrightarrow> hd (dec (now w)) \<noteq> 48) \<and>
   dec (random_int w) \<noteq> [] \<and> (\<forall>c \<in> set (dec (random_int w)). isDigit c) \<and>
   digitsVal (dec (random_int w)) = random_int w \<and>
   (random_int w \<noteq> 0 \<longrightarrow> hd (dec (random_int w)) \<noteq> 48) \<and>
   (extname orig = [] \<or> (\<exists>x. extname orig = 46 # x \<and> 46 \<notin> set x \<and> 47 \<notin> set x)) \<and>
   (p \<noteq> [] \<and> 46 \<notin> set p \<and> 47 \<notin> set p \<and> 46 \<notin> set x \<and> 47 \<notin> set x \<longrightarrow>
      extname (p @ 46 # x) = 46 # x) \<and>
   (46 \<notin> set p \<and> 47 \<notin> set p \<longrightarrow> extname p = []) \<and>
   ((\<forall>u \<in> set (extname orig). u < 256) \<longrightarrow>
      toLowerCase (Lowercase_Mapping w) (extname orig) =
        map (\<lambda>c. if (65 \<le> c \<and> c \<le> 90) \<or> (192 \<le> c \<and> c \<le> 222 \<and> c \<noteq> 215)
                 then c + 32 else c) (extname orig)) \<and>
   isDigit (hd (storage_filename w orig)) \<and>
   (\<forall>orig'. extname orig' = extname orig \<longrightarrow>
      storage_filename w orig' = storage_filename w orig) \<and>
   (safe_table (Lowercase_Mapping w) \<longrightarrow>
      extname (storage_filename w orig) = toLowerCase (Lowercase_Mapping w) (extname orig) \<and>
      47 \<notin> set (storage_filename w orig) \<and>
      length (filter (\<lambda>c. c = 46) (storage_filename w orig)) \<le> 1 \<and>
      (92 \<notin> set orig \<longrightarrow> 92 \<notin> set (storage_filename w orig)))"
proof -
  note sp = stem_plain [of w]
  have form: "storage_filename w orig =
     dec (now w) @ lit ''-'' @ dec (random_int w) @
     toLowerCase (Lowercase_Mapping w) (extname orig)"
    by (simp add: storage_filename_def Let_def)
  have d1: "dec (now w) \<noteq> [] \<and> (\<forall>c \<in> set (dec (now w)). isDigit c) \<and>
      digitsVal (dec (now w)) = now w \<and> (now w \<noteq> 0 \<longrightarrow> hd (dec (now w)) \<noteq> 48)"
    by (simp add: dec_nonempty dec_digits digitsVal_dec dec_no_leading_zero)
  have d2: "dec (random_int w) \<noteq> [] \<and> (\<forall>c \<in> set (dec (random_int w)). isDigit c) \<and>
      digitsVal (dec (random_int w)) = random_int w \<and>
      (random_int w \<noteq> 0 \<longrightarrow> hd (dec (random_int w)) \<noteq> 48)"
    by (simp add: dec_nonempty dec_digits digitsVal_dec dec_no_leading_zero)
  have sh: "extname orig = [] \<or> (\<exists>x. extname orig = 46 # x \<and> 46 \<notin> set x \<and> 47 \<notin> set x)"
    by (rule extname_shape)
  have e1: "p \<noteq> [] \<and> 46 \<notin> set p \<and> 47 \<notin> set p \<and> 46 \<notin> set x \<and> 47 \<notin> set x \<longrightarrow>
      extname (p @ 46 # x) = 46 # x"
    using extname_dot [of p x] by blast
  have e2: "46 \<notin> set p \<and> 47 \<notin> set p \<longrightarrow> extname p = []"
    using extname_no_dot [of p] by blast
  have lo: "(\<forall>u \<in> set (extname orig). u < 256) \<longrightarrow>
      toLowerCase (Lowercase_Mapping w) (extname orig) =
        map (\<lambda>c. if (65 \<le> c \<and> c \<le> 90) \<or> (192 \<le> c \<and> c \<le> 222 \<and> c \<noteq> 215)
                 then c + 32 else c) (extname orig)"
    using toLowerCase_latin1 [of "extname orig" "Lowercase_Mapping w"]
    unfolding latin1_lower_explicit by blast
  have hd: "isDigit (hd (storage_filename w orig))"
    using sp(1,5) by (simp add: storage_filename_stem)
  have dep: "\<forall>orig'. extname orig' = extname orig \<longrightarrow>
      storage_filename w orig' = storage_filename w orig"
    by (simp add: storage_filename_def)
  have safe: "safe_table (Lowercase_Mapping w) \<longrightarrow>
      extname (storage_filename w orig) = toLowerCase (Lowercase_Mapping w) (extname orig) \<and>
      47 \<notin> set (storage_filename w orig) \<and>
      length (filter (\<lambda>c. c = 46) (storage_filename w orig)) \<le> 1 \<and>
      (92 \<notin> set orig \<longrightarrow> 92 \<notin> set (storage_filename w orig))"
    using storage_filename_safe [of w orig] by blast
  from form d1 d2 sh e1 e2 lo hd dep safe show ?thesis
    by (intro conjI) blast+
qed

theorem storage_name_shape_witness:
  "storage_filename w0 (lit ''Page01.JPG'') = lit ''17-5.jpg'' \<and>
   dec (now w0) = lit ''17'' \<and> dec (random_int w0) = lit ''5'' \<and>
   extname (lit ''Page01.JPG'') = lit ''.JPG'' \<and>
   safe_table (Lowercase_Mapping w0) \<and>
   extname (storage_filename w0 (lit ''Page01.JPG'')) = lit ''.jpg'' \<and>
   92 \<notin> set (lit ''Page01.JPG'') \<and> 92 \<notin> set (storage_filename w0 (lit ''Page01.JPG'')) \<and>
   extname (lit ''other.JPG'') = extname (lit ''Page01.JPG'') \<and>
   storage_filename w0 (lit ''other.JPG'') = storage_filename w0 (lit ''Page01.JPG'') \<and>
   storage_filename w0 (lit ''a.'' @ [0xC9]) = lit ''17-5.'' @ [0xE9] \<and>
   storage_filename w0 (lit ''a.'' @ [0x212A]) = lit ''17-5.k''"
proof -
  have w: "now w0 = 17" "random_int w0 = 5" "Lowercase_Mapping w0 = table0"
    by (simp_all add: w0_def)
  note t = storage_name_shape [of w0 "lit ''Page01.JPG''" "lit ''Page01''" "lit ''JPG''"]
  have l: "lit ''Page01.JPG'' = lit ''Page01'' @ 46 # lit ''JPG''"
      "lit ''other.JPG'' = lit ''other'' @ 46 # lit ''JPG''"
    by (simp_all add: lit_def)
  have s: "lit ''Page01'' \<noteq> [] \<and> 46 \<notin> set (lit ''Page01'') \<and> 47 \<notin> set (lit ''Page01'') \<and>
      46 \<notin> set (lit ''JPG'') \<and> 47 \<notin> set (lit ''JPG'')"
    by (simp add: lit_def)
  from t s have e: "extname (lit ''Page01.JPG'') = lit ''.JPG''"
    unfolding l by (simp add: lit_def)
  have e': "extname (lit ''other.JPG'') = lit ''.JPG''"
    unfolding l by (subst extname_dot) (simp_all add: lit_def)
  from t have "(\<forall>u \<in> set (extname (lit ''Page01.JPG'')). u < 256) \<longrightarrow>
      toLowerCase (Lowercase_Mapping w0) (extname (lit ''Page01.JPG'')) =
        map (\<lambda>c. if (65 \<le> c \<and> c \<le> 90) \<or> (192 \<le> c \<and> c \<le> 222 \<and> c \<noteq> 215)
                 then c + 32 else c) (extname (lit ''Page01.JPG''))"
    by blast
  then have lw: "toLowerCase table0 (lit ''.JPG'') = lit ''.jpg''"
    unfolding e w by (simp add: lit_def)
  from t have "storage_filename w0 (lit ''Page01.JPG'') =
     dec (now w0) @ lit ''-'' @ dec (random_int w0) @
     toLowerCase (Lowercase_Mapping w0) (extname (lit ''Page01.JPG''))"
    by (rule conjunct1)
  then have n: "storage_filename w0 (lit ''Page01.JPG'') = lit ''17-5.jpg''"
    unfolding e w lw dec_17_5 by (simp add: lit_def)
  from t have "safe_table (Lowercase_Mapping w0) \<longrightarrow>
      extname (storage_filename w0 (lit ''Page01.JPG'')) =
        toLowerCase (Lowercase_Mapping w0) (extname (lit ''Page01.JPG'')) \<and>
      47 \<notin> set (storage_filename w0 (lit ''Page01.JPG'')) \<and>
      length (filter (\<lambda>c. c = 46) (storage_filename w0 (lit ''Page01.JPG''))) \<le> 1 \<and>
      (92 \<notin> set (lit ''Page01.JPG'') \<longrightarrow> 92 \<notin> set (storage_filename w0 (lit ''Page01.JPG'')))"
    by blast
  with safe_table0 have x: "extname (storage_filename w0 (lit ''Page01.JPG'')) = lit ''.jpg''"
    unfolding e w lw by blast
  have b: "92 \<notin> set (lit ''Page01.JPG'')"
    by (simp add: lit_def)
  have e2: "extname (lit ''a.'' @ [0xC9]) = [46, 0xC9]"
    using extname_dot [of "lit ''a''" "[0xC9]"] by (simp add: lit_def)
  have e3: "extname (lit ''a.'' @ [0x212A]) = [46, 0x212A]"
    using extname_dot [of "lit ''a''" "[0x212A]"] by (simp add: lit_def)
  have n2: "storage_filename w0 (lit ''a.'' @ [0xC9]) = lit ''17-5.'' @ [0xE9]"
    using storage_name_shape [of w0 "lit ''a.'' @ [0xC9]" "[]" "[]"]
    unfolding e2 w dec_17_5 by (simp add: lit_def)
  have n3: "storage_filename w0 (lit ''a.'' @ [0x212A]) = lit ''17-5.k''"
    unfolding storage_filename_def e3 w dec_17_5
    by (simp add: toLowerCase_def lower_cp_def latin1_lower_def table0_def utf16_def lit_def)
  have o: "storage_filename w0 (lit ''other.JPG'') = lit ''17-5.jpg''"
    unfolding storage_filename_def e' w lw dec_17_5 by (simp add: lit_def)
  have b': "92 \<notin> set (lit ''17-5.jpg'')"
    by (simp add: lit_def)
  from e e' x [unfolded n] n n2 n3 o b b' safe_table0 show ?thesis
    unfolding w dec_17_5 by simp
qed

section \<open>Uploads\<close>

lemma fileFilter_cases:
  "fileFilter f = (if mimetype f = ''image/jpeg'' \<or> mimetype f = ''image/png'' then Inr True
                   else Inl (PlainError ''Only JPEG and PNG files are allowed''))"
  by (simp add: fileFilter_def)

lemma upload_single_accepted:
  assumes "fileFilter f = Inr True" "length (content f) \<le> MAX_FILE_SIZE cfg"
  shows "upload_single cfg w (Some f) st = (written w f st, Inr (Some (req_file_of w f)))"
  using assms by (simp add: upload_single_def written_def req_file_of_def Let_def)

lemma next_err_plain: "next_err (PlainError m) = Response 500 (ErrorBody ''Something went wrong!'')"
  by (simp add: next_err_def multer_error_handler_def error_handler_def)

lemma upload_single_rejected:
  assumes "mimetype f \<noteq> ''image/jpeg''" "mimetype f \<noteq> ''image/png''"
  shows "upload_single cfg w (Some f) st = (st, Inl (PlainError ''Only JPEG and PNG files are allowed''))"
  using assms by (simp add: upload_single_def fileFilter_def)

lemma disallowed_mime_response:
  assumes "mimetype f \<noteq> ''image/jpeg''" "mimetype f \<noteq> ''image/png''"
  shows "post_uploads cfg decode w (Some f) st = (st, Response 500 (ErrorBody ''Something went wrong!''))"
  by (simp add: post_uploads_def upload_single_rejected [OF assms] next_err_plain)

lemma sizeOf_written:
  "sizeOf decode (written w f st) (file_filename (req_file_of w f)) = decode (content f)"
  by (simp add: sizeOf_def written_def req_file_of_def)

lemma unlink_written:
  "unlink (file_filename (req_file_of w f)) (written w f st) =
     st\<lparr>files := (files st)(storage_filename w (originalname f) := None)\<rparr>"
  by (simp add: unlink_def written_def req_file_of_def)

lemma handler_undecodable:
  assumes "decode (content f) = None"
  shows "upload_handler cfg decode w (Some (req_file_of w f)) (written w f st) =
     (st\<lparr>files := (files st)(storage_filename w (originalname f) := None)\<rparr>,
      Response 400 (ErrorBody ''Could not process image''))"
  using assms by (simp add: upload_handler_def Let_def sizeOf_written unlink_written)

lemma handler_falsy:
  assumes "decode (content f) = Some dims" "falsy (dim_width dims) \<or> falsy (dim_height dims)"
  shows "upload_handler cfg decode w (Some (req_file_of w f)) (written w f st) =
     (st\<lparr>files := (files st)(storage_filename w (originalname f) := None)\<rparr>,
      Response 400 (ErrorBody ''Invalid image file''))"
  using assms by (simp add: upload_handler_def Let_def sizeOf_written unlink_written)

lemma user_upsert_files:
  "user_upsert w st = Inr (st1, u) \<Longrightarrow> files st1 = files st \<and> images st1 = images st"
  by (auto simp: user_upsert_def Let_def split: if_splits option.splits)

lemma user_upsert_ok:
  "\<not> upsert_fails w \<Longrightarrow> \<exists>st1 u. user_upsert w st = Inr (st1, u)"
  by (auto simp: user_upsert_def Let_def split: option.splits)

lemma handler_create_fails:
  assumes d: "decode (content f) = Some dims" "\<not> falsy (dim_width dims)" "\<not> falsy (dim_height dims)"
    and u: "\<not> upsert_fails w" and c: "create_fails w"
  shows "\<exists>st'. upload_handler cfg decode w (Some (req_file_of w f)) (written w f st) =
            (st', Response 500 (ErrorBody ''Something went wrong!'')) \<and>
          files st' = (files st)(storage_filename w (originalname f) := None) \<and>
          images st' = images st"
proof -
  obtain st1 usr where up: "user_upsert w (written w f st) = Inr (st1, usr)"
    using user_upsert_ok [OF u] by blast
  have same: "files st1 = files (written w f st)" "images st1 = images (written w f st)"
    using user_upsert_files [OF up] by simp_all
  have cr: "image_create w (req_file_of w f) dims usr st1 = Inl (PlainError ''database error'')"
    using c by (simp add: image_create_def)
  have "upload_handler cfg decode w (Some (req_file_of w f)) (written w f st) =
          (unlink (file_filename (req_file_of w f)) st1, Response 500 (ErrorBody ''Something went wrong!''))"
    using d by (simp add: upload_handler_def Let_def sizeOf_written up cr next_err_plain)
  moreover have "files (unlink (file_filename (req_file_of w f)) st1) =
      (files st)(storage_filename w (originalname f) := None)"
    using same by (simp add: unlink_def written_def req_file_of_def)
  moreover have "images (unlink (file_filename (req_file_of w f)) st1) = images st"
    using same by (simp add: unlink_def written_def)
  ultimately show ?thesis by blast
qed

text \<open>
  C1. An upload that passes validation (allowed mime type, size within the ceiling,
  decodable with non-zero width and height) and whose identity is resolved, but whose
  metadata create call fails: the bytes had been written under the storage name, the
  handler removes them and passes the failure on, and the answer is the 500 of the last
  error handler. Afterwards the storage name holds no bytes and the images table is what
  it was: no record was created and no orphan bytes remain.
\<close>

theorem create_failure_rolls_back:
  assumes "mimetype f = ''image/jpeg'' \<or> mimetype f = ''image/png''"
    and "length (content f) \<le> MAX_FILE_SIZE cfg"
    and "decode (content f) = Some dims" and "\<not> falsy (dim_width dims)" and "\<not> falsy (dim_height dims)"
    and "\<not> upsert_fails w" and "create_fails w"
  shows "files (fst (upload_single cfg w (Some f) st)) (storage_filename w (originalname f)) =
           Some (content f) \<and>
         (\<exists>st'. post_uploads cfg decode w (Some f) st =
                  (st', Response 500 (ErrorBody ''Something went wrong!'')) \<and>
                files st' = (files st)(storage_filename w (originalname f) := None) \<and>
                images st' = images st)"
proof -
  have ff: "fileFilter f = Inr True"
    using assms(1) by (auto simp: fileFilter_cases)
  note us = upload_single_accepted [OF ff assms(2), of w st]
  have "files (fst (upload_single cfg w (Some f) st)) (storage_filename w (originalname f)) =
           Some (content f)"
    by (simp add: us written_def)
  moreover have "post_uploads cfg decode w (Some f) st =
      upload_handler cfg decode w (Some (req_file_of w f)) (written w f st)"
    by (simp add: post_uploads_def us)
  ultimately show ?thesis
    using handler_create_fails [of decode f dims w cfg st] assms(3-7) by simp
qed

lemma handler_created:
  assumes "upload_handler cfg decode w rf st = (st', Response 201 b)"
  shows "\<exists>row. images st' = images st @ [row] \<and> b = ImageBody (to_dto cfg row) \<and>
           \<not> falsy (width row) \<and> \<not> falsy (height row) \<and>
           (\<exists>bs d. decode bs = Some d \<and> width row = dim_width d \<and> height row = dim_height d)"
  using assms
  by (auto simp: upload_handler_def Let_def sizeOf_def image_create_def next_err_def
      multer_error_handler_def error_handler_def
      dest!: user_upsert_files
      split: option.splits if_splits sum.splits prod.splits err.splits) blast

lemma falsy_iff: "\<not> falsy x \<longleftrightarrow> (\<exists>n. x = Some n \<and> n \<noteq> 0)"
  by (cases x) (simp_all add: falsy_def)

lemma next_err_not_201: "next_err e \<noteq> Response 201 b"
  by (cases e) (simp_all add: next_err_def multer_error_handler_def error_handler_def)

lemma upload_single_images: "images (fst (upload_single cfg w part st)) = images st"
  by (auto simp: upload_single_def unlink_def Let_def split: option.splits sum.splits)

lemma post_uploads_created:
  assumes "post_uploads cfg decode w part st = (st', Response 201 b)"
  shows "\<exists>row. images st' = images st @ [row] \<and> b = ImageBody (to_dto cfg row) \<and>
           \<not> falsy (width row) \<and> \<not> falsy (height row) \<and>
           (\<exists>bs d. decode bs = Some d \<and> width row = dim_width d \<and> height row = dim_height d)"
proof -
  obtain st1 r where us: "upload_single cfg w part st = (st1, r)"
    by (cases "upload_single cfg w part st")
  have im: "images st1 = images st"
    using upload_single_images [of cfg w part st] us by simp
  show ?thesis
  proof (cases r)
    case (Inl e)
    with assms us show ?thesis by (simp add: post_uploads_def next_err_not_201)
  next
    case (Inr rf)
    with assms us have "upload_handler cfg decode w rf st1 = (st', Response 201 b)"
      by (simp add: post_uploads_def)
    from handler_created [OF this] im show ?thesis by simp
  qed
qed

text \<open>
  C5, as the code has it. When the stored bytes cannot be decoded, or the decoded width or
  height is missing or zero, the handler removes the bytes it has just written and answers
  400; users and images are untouched, whatever the database would have done. A record
  created by a successful upload has a width and a height that are present and not zero;
  they are positive when the decoder never returns a negative number.
\<close>

theorem invalid_image_cleanup:
  "((mimetype f = ''image/jpeg'' \<or> mimetype f = ''image/png'') \<and>
    length (content f) \<le> MAX_FILE_SIZE cfg \<and>
    (decode (content f) = None \<or>
     (\<exists>dims. decode (content f) = Some dims \<and> (falsy (dim_width dims) \<or> falsy (dim_height dims)))) \<longrightarrow>
      files (fst (upload_single cfg w (Some f) st)) (storage_filename w (originalname f)) =
        Some (content f) \<and>
      (\<exists>msg. post_uploads cfg decode w (Some f) st =
        (st\<lparr>files := (files st)(storage_filename w (originalname f) := None)\<rparr>,
         Response 400 (ErrorBody msg)))) \<and>
   (post_uploads cfg' decode' w' part' st' = (st'', Response 201 b) \<longrightarrow>
      (\<exists>row wd ht. images st'' = images st' @ [row] \<and>
         width row = Some wd \<and> height row = Some ht \<and> wd \<noteq> 0 \<and> ht \<noteq> 0 \<and>
         ((\<forall>bs d n. decode' bs = Some d \<and> (dim_width d = Some n \<or> dim_height d = Some n) \<longrightarrow> 0 \<le> n)
            \<longrightarrow> 0 < wd \<and> 0 < ht)))"
proof (intro conjI impI)
  assume a: "(mimetype f = ''image/jpeg'' \<or> mimetype f = ''image/png'') \<and>
    length (content f) \<le> MAX_FILE_SIZE cfg \<and>
    (decode (content f) = None \<or>
     (\<exists>dims. decode (content f) = Some dims \<and> (falsy (dim_width dims) \<or> falsy (dim_height dims))))"
  then have ff: "fileFilter f = Inr True"
    by (auto simp: fileFilter_cases)
  from a have sz: "length (content f) \<le> MAX_FILE_SIZE cfg" by simp
  note us = upload_single_accepted [OF ff sz, of w st]
  show "files (fst (upload_single cfg w (Some f) st)) (storage_filename w (originalname f)) =
        Some (content f)"
    by (simp add: us written_def)
  have pu: "post_uploads cfg decode w (Some f) st =
      upload_handler cfg decode w (Some (req_file_of w f)) (written w f st)"
    by (simp add: post_uploads_def us)
  from a show "\<exists>msg. post_uploads cfg decode w (Some f) st =
        (st\<lparr>files := (files st)(storage_filename w (originalname f) := None)\<rparr>,
         Response 400 (ErrorBody msg))"
    using handler_undecodable [of decode f cfg w st] handler_falsy [of decode f _ cfg w st]
    by (auto simp: pu)
next
  assume "post_uploads cfg' decode' w' part' st' = (st'', Response 201 b)"
  from post_uploads_created [OF this]
  obtain row bs d where row: "images st'' = images st' @ [row]" "\<not> falsy (width row)"
      "\<not> falsy (height row)" "decode' bs = Some d" "width row = dim_width d" "height row = dim_height d"
    by blast
  from row(2,3) obtain wd ht where wh: "width row = Some wd" "wd \<noteq> 0" "height row = Some ht" "ht \<noteq> 0"
    by (auto simp: falsy_iff)
  have "0 < wd \<and> 0 < ht"
    if "\<forall>bs d n. decode' bs = Some d \<and> (dim_width d = Some n \<or> dim_height d = Some n) \<longrightarrow> 0 \<le> n"
  proof -
    from that row(4-6) wh have "0 \<le> wd" "0 \<le> ht" by metis+
    with wh show ?thesis by simp
  qed
  with row(1) wh show "\<exists>row wd ht. images st'' = images st' @ [row] \<and>
         width row = Some wd \<and> height row = Some ht \<and> wd \<noteq> 0 \<and> ht \<noteq> 0 \<and>
         ((\<forall>bs d n. decode' bs = Some d \<and> (dim_width d = Some n \<or> dim_height d = Some n) \<longrightarrow> 0 \<le> n)
            \<longrightarrow> 0 < wd \<and> 0 < ht)"
    by blast
qed

lemma name_png: "storage_filename w0 (originalname png_part) = lit ''17-5.png''"
proof -
  have "extname (lit ''a'' @ 46 # lit ''PNG'') = 46 # lit ''PNG''"
    by (rule extname_dot) (simp_all add: lit_def)
  then have e: "extname (lit ''a.PNG'') = lit ''.PNG''"
    by (simp add: lit_def)
  have l: "toLowerCase table0 (lit ''.PNG'') = lit ''.png''"
    by (subst toLowerCase_latin1) (simp_all add: lit_def latin1_lower_def)
  have o: "originalname png_part = lit ''a.PNG''"
    by (simp add: png_part_def)
  have w: "now w0 = 17" "random_int w0 = 5" "Lowercase_Mapping w0 = table0"
    by (simp_all add: w0_def)
  show ?thesis
    unfolding storage_filename_def o e w l dec_17_5 by (simp add: lit_def)
qed

lemma name_png_fail: "storage_filename w_create_fails (originalname png_part) = lit ''17-5.png''"
proof -
  have "storage_filename w_create_fails (originalname png_part) =
      storage_filename w0 (originalname png_part)"
    by (simp add: storage_filename_def w_create_fails_def)
  then show ?thesis by (simp only: name_png)
qed

lemma post_uploads_ok:
  assumes "mimetype f = ''image/jpeg'' \<or> mimetype f = ''image/png''"
    and "length (content f) \<le> MAX_FILE_SIZE cfg"
    and "decode (content f) = Some dims" and "\<not> falsy (dim_width dims)" and "\<not> falsy (dim_height dims)"
    and "\<not> upsert_fails w" and "\<not> create_fails w"
    and "find (\<lambda>u. email u = demoEmail) (users st) = Some usr"
  shows "post_uploads cfg decode w (Some f) st =
     (let row = \<lparr> image_id = fresh_image_id w,
                   filename = storage_filename w (originalname f),
                   originalName = originalname f,
                   mimeType = mimetype f,
                   size_bytes = length (content f),
                   width = dim_width dims,
                   height = dim_height dims,
                   uploadedAt = db_now w,
                   userId = user_id usr \<rparr>
      in ((written w f st)\<lparr>images := images st @ [row]\<rparr>, Response 201 (ImageBody (to_dto cfg row))))"
proof -
  have ff: "fileFilter f = Inr True"
    using assms(1) by (auto simp: fileFilter_cases)
  note us = upload_single_accepted [OF ff assms(2), of w st]
  have up: "user_upsert w (written w f st) = Inr (written w f st, usr)"
    using assms(6,8) by (simp add: user_upsert_def written_def)
  have "post_uploads cfg decode w (Some f) st =
      upload_handler cfg decode w (Some (req_file_of w f)) (written w f st)"
    by (simp add: post_uploads_def us)
  also have "\<dots> =
      (case image_create w (req_file_of w f) dims usr (written w f st) of
         Inl dbErr \<Rightarrow> (unlink (file_filename (req_file_of w f)) (written w f st), next_err dbErr)
       | Inr (st2, img) \<Rightarrow> (st2, Response 201 (ImageBody (to_dto cfg img))))"
    using assms(3,4,5) by (simp add: upload_handler_def Let_def sizeOf_written up)
  finally show ?thesis
    using assms(7) by (simp add: image_create_def req_file_of_def written_def Let_def)
qed

text \<open>
  The claim C5 as it is written fails for a negative width: \<^verbatim>\<open>!dimensions.width\<close> is false
  for \<open>- 1\<close>, so the upload succeeds, the bytes stay and the record stores the width \<open>- 1\<close>.
\<close>

theorem negative_width_is_stored:
  "decode_negative (content png_part) = Some (Dimensions (Some (- 1)) (Some 10)) \<and>
   status (snd (post_uploads cfg0 decode_negative w0 (Some png_part) st3)) = 201 \<and>
   map width (images (fst (post_uploads cfg0 decode_negative w0 (Some png_part) st3))) =
     [Some 1, Some 3, Some 5, Some (- 1)] \<and>
   files (fst (post_uploads cfg0 decode_negative w0 (Some png_part) st3)) (lit ''17-5.png'') = Some [1, 2, 3]"
proof -
  have u: "find (\<lambda>u. email u = demoEmail) (users st3) =
      Some \<lparr>user_id = ''u'', email = demoEmail, username = demoUsername\<rparr>"
    by (simp add: st3_def)
  have "post_uploads cfg0 decode_negative w0 (Some png_part) st3 = 
     (let row = \<lparr> image_id = fresh_image_id w0,
                   filename = storage_filename w0 (originalname png_part),
                   originalName = originalname png_part,
                   mimeType = mimetype png_part,
                   size_bytes = length (content png_part),
                   width = Some (- 1),
                   height = Some 10,
                   uploadedAt = db_now w0,
                   userId = ''u'' \<rparr>
      in ((written w0 png_part st3)\<lparr>images := images st3 @ [row]\<rparr>, Response 201 (ImageBody (to_dto cfg0 row))))"
    using post_uploads_ok [of png_part cfg0 decode_negative "Dimensions (Some (- 1)) (Some 10)" w0 st3, OF _ _ _ _ _ _ _ u]
    by (simp add: png_part_def cfg0_def decode_negative_def falsy_def w0_def)
  then show ?thesis
    by (simp add: Let_def written_def name_png decode_negative_def)
      (simp add: st3_def example_rows png_part_def)
qed

lemma post_uploads_png_ok:
  "post_uploads cfg0 decode_ok w0 (Some png_part) st3 =
     ((written w0 png_part st3)\<lparr>images := images st3 @ [row_new]\<rparr>,
      Response 201 (ImageBody (to_dto cfg0 row_new)))"
proof -
  have u: "find (\<lambda>u. email u = demoEmail) (users st3) =
      Some \<lparr>user_id = ''u'', email = demoEmail, username = demoUsername\<rparr>"
    by (simp add: st3_def)
  have "post_uploads cfg0 decode_ok w0 (Some png_part) st3 =
     (let row = \<lparr> image_id = fresh_image_id w0,
                   filename = storage_filename w0 (originalname png_part),
                   originalName = originalname png_part,
                   mimeType = mimetype png_part,
                   size_bytes = length (content png_part),
                   width = Some 800,
                   height = Some 1200,
                   uploadedAt = db_now w0,
                   userId = ''u'' \<rparr>
      in ((written w0 png_part st3)\<lparr>images := images st3 @ [row]\<rparr>,
          Response 201 (ImageBody (to_dto cfg0 row))))"
    using post_uploads_ok [of png_part cfg0 decode_ok "Dimensions (Some 800) (Some 1200)" w0 st3,
        OF _ _ _ _ _ _ _ u]
    by (simp add: png_part_def cfg0_def decode_ok_def falsy_def w0_def)
  then show ?thesis
    by (simp add: Let_def name_png row_new_def) (simp add: w0_def png_part_def numeral_3_eq_3)
qed

theorem invalid_image_cleanup_witness:
  "mimetype png_part = ''image/png'' \<and> length (content png_part) \<le> MAX_FILE_SIZE cfg0 \<and>
   decode_zero (content png_part) = Some (Dimensions (Some 0) (Some 1200)) \<and> falsy (Some 0) \<and>
   files (fst (upload_single cfg0 w0 (Some png_part) st3)) (lit ''17-5.png'') = Some [1, 2, 3] \<and>
   post_uploads cfg0 decode_zero w0 (Some png_part) st3 =
     (st3\<lparr>files := (files st3)((lit ''17-5.png'') := None)\<rparr>, Response 400 (ErrorBody ''Invalid image file'')) \<and>
   post_uploads cfg0 decode_ok w0 (Some png_part) st3 =
     ((written w0 png_part st3)\<lparr>images := images st3 @ [row_new]\<rparr>,
      Response 201 (ImageBody (to_dto cfg0 row_new))) \<and>
   width row_new = Some 800 \<and> height row_new = Some 1200"
proof -
  have h: "mimetype png_part = ''image/png''" "length (content png_part) \<le> MAX_FILE_SIZE cfg0"
      "decode_zero (content png_part) = Some (Dimensions (Some 0) (Some 1200))" "falsy (Some 0)"
      "content png_part = [1, 2, 3]"
    by (simp_all add: png_part_def cfg0_def decode_zero_def falsy_def)
  have z: "post_uploads cfg0 decode_zero w0 (Some png_part) st3 =
     (st3\<lparr>files := (files st3)((lit ''17-5.png'') := None)\<rparr>, Response 400 (ErrorBody ''Invalid image file''))"
  proof -
    have ff: "fileFilter png_part = Inr True"
      by (simp add: fileFilter_cases png_part_def)
    show ?thesis
      using handler_falsy [of decode_zero png_part "Dimensions (Some 0) (Some 1200)" cfg0 w0 st3] h
      by (simp add: post_uploads_def upload_single_accepted [OF ff h(2)] name_png)
  qed
  have r: "width row_new = Some 800" "height row_new = Some 1200"
    by (simp_all add: row_new_def)
  from invalid_image_cleanup [of png_part cfg0 decode_zero w0 st3 cfg0 decode_ok w0 "Some png_part" st3
      "(written w0 png_part st3)\<lparr>images := images st3 @ [row_new]\<rparr>" "ImageBody (to_dto cfg0 row_new)"]
  show ?thesis
    using h z r post_uploads_png_ok by (simp add: name_png)
qed

theorem create_failure_rolls_back_witness:
  "mimetype png_part = ''image/png'' \<and> length (content png_part) \<le> MAX_FILE_SIZE cfg0 \<and>
   decode_ok (content png_part) = Some (Dimensions (Some 800) (Some 1200)) \<and>
   \<not> falsy (Some 800) \<and> \<not> falsy (Some 1200) \<and>
   \<not> upsert_fails w_create_fails \<and> create_fails w_create_fails \<and>
   files (fst (upload_single cfg0 w_create_fails (Some png_part) st3)) (lit ''17-5.png'') = Some [1, 2, 3] \<and>
   snd (post_uploads cfg0 decode_ok w_create_fails (Some png_part) st3) =
     Response 500 (ErrorBody ''Something went wrong!'') \<and>
   files (fst (post_uploads cfg0 decode_ok w_create_fails (Some png_part) st3)) (lit ''17-5.png'') = None \<and>
   images (fst (post_uploads cfg0 decode_ok w_create_fails (Some png_part) st3)) = images st3"
proof -
  have h: "mimetype png_part = ''image/png''" "length (content png_part) \<le> MAX_FILE_SIZE cfg0"
      "decode_ok (content png_part) = Some (Dimensions (Some 800) (Some 1200))"
      "\<not> falsy (Some 800)" "\<not> falsy (Some 1200)"
      "\<not> upsert_fails w_create_fails" "create_fails w_create_fails"
      "content png_part = [1, 2, 3]"
    by (simp_all add: png_part_def cfg0_def decode_ok_def falsy_def w_create_fails_def w0_def)
  from create_failure_rolls_back [of png_part cfg0 decode_ok "Dimensions (Some 800) (Some 1200)"
      w_create_fails st3]
  show ?thesis
    using h by (auto simp: name_png_fail)
qed

text \<open>
  C2. An upload whose declared mime type is not allowed is turned down by the file filter
  before anything is written, and no record is created: the store is what it was. But the
  filter's error is a plain \<^verbatim>\<open>Error\<close>, not a \<^verbatim>\<open>MulterError\<close>, so the multer error handler
  passes it on and the client receives the 500 of the last error handler, not a 400. Here
  for a GIF.
\<close>

theorem gif_upload_is_answered_500:
  "mimetype gif_part = ''image/gif'' \<and>
   fileFilter gif_part = Inl (PlainError ''Only JPEG and PNG files are allowed'') \<and>
   post_uploads cfg0 decode_ok w0 (Some gif_part) st3 =
     (st3, Response 500 (ErrorBody ''Something went wrong!''))"
  by (simp add: disallowed_mime_response fileFilter_cases gif_part_def)

section \<open>The gallery\<close>

lemma run_append: "run (xs @ ys) g = run ys (run xs g)"
  by (simp add: run_def)

lemma run_Cons: "run (e # es) g = run es (step e g)"
  by (simp add: run_def)

lemma run_Nil: "run [] g = g"
  by (simp add: run_def)

subsection \<open>A cancelled cycle\<close>

lemma load_settle_cancelled:
  "cancelled (cyc g) \<Longrightarrow> load_settle a out g = g\<lparr>cyc := (cyc g)\<lparr>pending := Idle\<rparr>\<rparr>"
  by (simp add: load_settle_def load_try_def load_catch_def Let_def split: sum.splits)

lemma load_begin_cancelled:
  "cancelled (cyc g) \<Longrightarrow> load_begin a g = g\<lparr>cyc := (cyc g)\<lparr>pending := Idle\<rparr>\<rparr>"
  by (simp add: load_begin_def)

lemma step_cancelled:
  assumes "cancelled (cyc g)"
  shows "view (step e g) = view g \<and> cancelled (cyc (step e g)) \<and>
         fetches (cyc (step e g)) = fetches (cyc g) \<and> timers (cyc (step e g)) = timers (cyc g)"
  using assms
  by (cases e) (auto simp: load_settle_cancelled load_begin_cancelled split: pending.splits)

lemma run_cancelled:
  "cancelled (cyc g) \<Longrightarrow>
   view (run evs g) = view g \<and> cancelled (cyc (run evs g)) \<and>
   fetches (cyc (run evs g)) = fetches (cyc g) \<and> timers (cyc (run evs g)) = timers (cyc g)"
proof (induction evs arbitrary: g)
  case Nil
  then show ?case by (simp add: run_Nil)
next
  case (Cons e evs)
  from step_cancelled [OF Cons.prems, of e] Cons.IH [of "step e g"]
  show ?case by (simp add: run_Cons)
qed

text \<open>
  C3. Once a cycle is cancelled, whatever happens to it afterwards (its request settles
  with a response, a failure or an abort, its timer fires, the cleanup runs again) leaves
  the three cells as they are, issues no request and sets no timer. The cleanup cancels
  the cycle from any state, so the same holds for every trace that starts with it.
\<close>

theorem cancelled_cycle_is_silent:
  "(cancelled (cyc g) \<longrightarrow>
      view (run evs g) = view g \<and>
      fetches (cyc (run evs g)) = fetches (cyc g) \<and>
      timers (cyc (run evs g)) = timers (cyc g)) \<and>
   view (run (Cleanup # evs') g') = view g' \<and>
   fetches (cyc (run (Cleanup # evs') g')) = fetches (cyc g') \<and>
   timers (cyc (run (Cleanup # evs') g')) = timers (cyc g')"
proof -
  have "cancelled (cyc (step Cleanup g'))" by simp
  from run_cancelled [OF this, of evs'] run_cancelled [of g evs]
  show ?thesis by (simp add: run_Cons)
qed

subsection \<open>Failures and retries\<close>

lemma load_try_error:
  "attempt_error out = Some e \<Longrightarrow> \<not> cancelled (cyc g) \<Longrightarrow> load_try out g = Inl e"
  by (auto simp: attempt_error_def load_try_def split: sum.splits)

lemma load_try_ok:
  "await_body out = Inr data \<Longrightarrow> items_of data = Inr vs \<Longrightarrow> \<not> cancelled (cyc g) \<Longrightarrow>
   load_try out g = Inr (g\<lparr>view := (view g)\<lparr>items := vs, loading := False\<rparr>\<rparr>)"
  by (simp add: load_try_def)

lemma settle_failure:
  assumes "\<not> cancelled (cyc g)" "pending (cyc g) = InFlight a" "attempt_error out = Some e"
  shows "step (Settle out) g =
     (if err_name e \<noteq> ''AbortError'' \<and> a < 5
      then g\<lparr>cyc := (cyc g)\<lparr>pending := Timer (retry_delay a) (a + 1),
                              timers := timers (cyc g) @ [retry_delay a]\<rparr>\<rparr>
      else g\<lparr>view := (view g)\<lparr>error := Some (message_or_default e), loading := False\<rparr>,
             cyc := (cyc g)\<lparr>pending := Idle\<rparr>\<rparr>)"
  using assms
  by (simp add: load_settle_def Let_def load_try_error load_catch_def)

lemma settle_success:
  assumes "\<not> cancelled (cyc g)" "pending (cyc g) = InFlight a"
    "await_body out = Inr data" "items_of data = Inr vs"
  shows "step (Settle out) g =
     g\<lparr>view := (view g)\<lparr>items := vs, loading := False\<rparr>, cyc := (cyc g)\<lparr>pending := Idle\<rparr>\<rparr>"
  using assms by (simp add: load_settle_def Let_def load_try_ok)

lemma effect_start_in_flight: "effect_start v = in_flight v 0"
  by (simp add: effect_start_def load_begin_def new_cycle_def in_flight_def Let_def)

lemma retry_pair:
  assumes "transient out" "k < 5"
  shows "run [Settle out, TimerFires] (in_flight v k) = in_flight v (Suc k)"
proof -
  obtain e where e: "attempt_error out = Some e" "err_name e \<noteq> ''AbortError''"
    using assms(1) by (auto simp: transient_def split: option.splits)
  have "step (Settle out) (in_flight v k) =
      (in_flight v k)\<lparr>cyc := (cyc (in_flight v k))\<lparr>pending := Timer (retry_delay k) (k + 1),
                              timers := timers (cyc (in_flight v k)) @ [retry_delay k]\<rparr>\<rparr>"
    using settle_failure [of "in_flight v k" k out e] e assms(2) by (simp add: in_flight_def)
  then show ?thesis
    by (simp add: run_Cons run_Nil load_begin_def in_flight_def Let_def)
qed

lemma retry_prefix:
  "list_all transient outs \<Longrightarrow> length outs \<le> 5 \<Longrightarrow>
   run (retry_trace outs) (effect_start v) = in_flight v (length outs)"
proof (induction outs rule: rev_induct)
  case Nil
  then show ?case by (simp add: retry_trace_def run_Nil effect_start_in_flight)
next
  case (snoc out outs)
  then have IH: "run (retry_trace outs) (effect_start v) = in_flight v (length outs)"
    and t: "transient out" and k: "length outs < 5"
    by simp_all
  have "retry_trace (outs @ [out]) = retry_trace outs @ [Settle out, TimerFires]"
    by (simp add: retry_trace_def)
  then show ?case
    by (simp add: run_append IH retry_pair [OF t k])
qed

lemma upt_5: "[0..<5] = [0, 1, 2, 3, 4]"
  by (simp add: upt_rec)

lemma delays_5: "map retry_delay [0..<5] = [1000, 2000, 4000, 8000, 8000]"
  by (simp add: upt_5 retry_delay_def)

lemma retry_delay_min: "retry_delay a = min (1000 * 2 ^ a) 8000"
  by (simp add: retry_delay_def)

lemma in_flight_view: "view (in_flight v k) = v\<lparr>loading := True, error := None\<rparr>"
  and in_flight_timers: "timers (cyc (in_flight v k)) = map retry_delay [0..<k]"
  and in_flight_pending: "pending (cyc (in_flight v k)) = InFlight k"
  and in_flight_live: "\<not> cancelled (cyc (in_flight v k))"
  by (simp_all add: in_flight_def)

text \<open>
  C4, as the claim has it. A live attempt whose request is rejected with an
  \<^verbatim>\<open>AbortError\<close> is a failed attempt that is not cancelled, and its count 0 is below
  the ceiling. It sets no timer: the cycle ends at once, loading is off and the error
  shown is the message of the rejection.
\<close>

theorem abort_in_live_cycle_is_not_retried:
  "\<not> cancelled (cyc (effect_start initial_rendered)) \<and>
   pending (cyc (effect_start initial_rendered)) = InFlight 0 \<and>
   attempt_error out_abort = Some (JsError ''AbortError'' ''The operation was aborted.'') \<and>
   step (Settle out_abort) (effect_start initial_rendered) =
     \<lparr>view = \<lparr>items = [], error = Some ''The operation was aborted.'', loading = False\<rparr>,
      cyc = \<lparr>cancelled = False, aborted = False, pending = Idle, fetches = 1, timers = []\<rparr>\<rparr>"
proof -
  have e: "attempt_error out_abort = Some (JsError ''AbortError'' ''The operation was aborted.'')"
    by (simp add: attempt_error_def await_body_def out_abort_def)
  have g: "\<not> cancelled (cyc (in_flight initial_rendered 0))"
      "pending (cyc (in_flight initial_rendered 0)) = InFlight 0"
    by (simp_all add: in_flight_def)
  from settle_failure [OF g e] e g show ?thesis
    by (simp add: effect_start_in_flight)
      (simp add: in_flight_def initial_rendered_def message_or_default_def)
qed

text \<open>
  C4, amended. (1) A live attempt \<open>a < 5\<close> that fails with anything but an
  \<^verbatim>\<open>AbortError\<close> sets exactly one timer, with the delay \<open>min (1000 * 2 ^ a) 8000\<close> for
  attempt \<open>a + 1\<close>, and leaves the cells alone. (2) After up to five such failures, each
  followed by its timer, the cells still show loading with no error, and the delays set so
  far are those of the attempts \<open>0, 1, \<dots>\<close>. (3) After five such failures and a sixth
  one, the cycle is over: loading is off, the error is the message of the sixth failure
  (the default text if it has none), six requests were issued and five timers set, with
  the delays 1000, 2000, 4000, 8000 and 8000. (4) When instead an attempt receives an ok
  response whose body has a list of items, the cells hold that list, loading is off and no
  error is shown. (5) A live attempt that fails with an \<^verbatim>\<open>AbortError\<close>, whatever its
  count, sets no timer: loading is off and the error is the message of the failure.
\<close>

theorem retry_schedule:
  "(\<not> cancelled (cyc g) \<and> pending (cyc g) = InFlight a \<and> a < 5 \<and> transient out \<longrightarrow>
      step (Settle out) g =
        g\<lparr>cyc := (cyc g)\<lparr>pending := Timer (min (1000 * 2 ^ a) 8000) (a + 1),
                              timers := timers (cyc g) @ [min (1000 * 2 ^ a) 8000]\<rparr>\<rparr>) \<and>
   (list_all transient outs \<and> length outs \<le> 5 \<longrightarrow>
      view (run (retry_trace outs) (effect_start v)) = v\<lparr>loading := True, error := None\<rparr> \<and>
      timers (cyc (run (retry_trace outs) (effect_start v))) = map retry_delay [0..<length outs]) \<and>
   (list_all transient outs \<and> length outs = 5 \<and>
    attempt_error out6 = Some e \<and> err_name e \<noteq> ''AbortError'' \<longrightarrow>
      run (retry_trace outs @ [Settle out6]) (effect_start v) =
        \<lparr>view = v\<lparr>loading := False, error := Some (message_or_default e)\<rparr>,
         cyc = \<lparr>cancelled = False, aborted = False, pending = Idle, fetches = 6,
                timers = [1000, 2000, 4000, 8000, 8000]\<rparr>\<rparr>) \<and>
   (list_all transient outs \<and> length outs \<le> 5 \<and>
    await_body ok = Inr data \<and> get_prop ''items'' data = Some (JArr xs) \<longrightarrow>
      view (run (retry_trace outs @ [Settle ok]) (effect_start v)) =
        v\<lparr>items := xs, loading := False, error := None\<rparr> \<and>
      pending (cyc (run (retry_trace outs @ [Settle ok]) (effect_start v))) = Idle) \<and>
   (\<not> cancelled (cyc h) \<and> pending (cyc h) = InFlight b \<and>
    attempt_error outa = Some ea \<and> err_name ea = ''AbortError'' \<longrightarrow>
      step (Settle outa) h =
        h\<lparr>view := (view h)\<lparr>error := Some (message_or_default ea), loading := False\<rparr>,
          cyc := (cyc h)\<lparr>pending := Idle\<rparr>\<rparr>)"
proof (intro conjI impI)
  assume a: "\<not> cancelled (cyc g) \<and> pending (cyc g) = InFlight a \<and> a < 5 \<and> transient out"
  then obtain e where e: "attempt_error out = Some e" "err_name e \<noteq> ''AbortError''"
    by (auto simp: transient_def split: option.splits)
  from a e settle_failure [of g a out e]
  show "step (Settle out) g =
        g\<lparr>cyc := (cyc g)\<lparr>pending := Timer (min (1000 * 2 ^ a) 8000) (a + 1),
                              timers := timers (cyc g) @ [min (1000 * 2 ^ a) 8000]\<rparr>\<rparr>"
    by (simp add: retry_delay_min)
next
  assume "list_all transient outs \<and> length outs \<le> 5"
  then have "run (retry_trace outs) (effect_start v) = in_flight v (length outs)"
    by (simp add: retry_prefix)
  then show "view (run (retry_trace outs) (effect_start v)) = v\<lparr>loading := True, error := None\<rparr>"
    and "timers (cyc (run (retry_trace outs) (effect_start v))) = map retry_delay [0..<length outs]"
    by (simp_all add: in_flight_view in_flight_timers)
next
  assume a: "list_all transient outs \<and> length outs = 5 \<and>
    attempt_error out6 = Some e \<and> err_name e \<noteq> ''AbortError''"
  then have r: "run (retry_trace outs) (effect_start v) = in_flight v 5"
    using retry_prefix [of outs v] by simp
  have "step (Settle out6) (in_flight v 5) =
      (in_flight v 5)\<lparr>view := (view (in_flight v 5))\<lparr>error := Some (message_or_default e), loading := False\<rparr>,
             cyc := (cyc (in_flight v 5))\<lparr>pending := Idle\<rparr>\<rparr>"
    using settle_failure [of "in_flight v 5" 5 out6 e] a
    by (simp add: in_flight_pending in_flight_live)
  moreover have "run (retry_trace outs @ [Settle out6]) (effect_start v) =
      step (Settle out6) (in_flight v 5)"
    by (simp only: run_append r run_Cons run_Nil)
  ultimately show "run (retry_trace outs @ [Settle out6]) (effect_start v) =
        \<lparr>view = v\<lparr>loading := False, error := Some (message_or_default e)\<rparr>,
         cyc = \<lparr>cancelled = False, aborted = False, pending = Idle, fetches = 6,
                timers = [1000, 2000, 4000, 8000, 8000]\<rparr>\<rparr>"
    by (simp only:) (simp add: in_flight_def delays_5)
next
  assume a: "list_all transient outs \<and> length outs \<le> 5 \<and>
    await_body ok = Inr data \<and> get_prop ''items'' data = Some (JArr xs)"
  then have r: "run (retry_trace outs) (effect_start v) = in_flight v (length outs)"
    by (simp add: retry_prefix)
  from a have "data \<noteq> JNull" by auto
  with a have it: "items_of data = Inr xs"
    by (simp add: items_of_def)
  have s: "step (Settle ok) (in_flight v (length outs)) =
      (in_flight v (length outs))\<lparr>view := (view (in_flight v (length outs)))\<lparr>items := xs, loading := False\<rparr>,
         cyc := (cyc (in_flight v (length outs)))\<lparr>pending := Idle\<rparr>\<rparr>"
    using settle_success [of "in_flight v (length outs)" "length outs" ok data xs] a it
    by (simp add: in_flight_pending in_flight_live)
  have e: "run (retry_trace outs @ [Settle ok]) (effect_start v) =
      step (Settle ok) (in_flight v (length outs))"
    by (simp only: run_append r run_Cons run_Nil)
  show "view (run (retry_trace outs @ [Settle ok]) (effect_start v)) =
        v\<lparr>items := xs, loading := False, error := None\<rparr>"
    by (simp only: e s) (simp add: in_flight_view)
  show "pending (cyc (run (retry_trace outs @ [Settle ok]) (effect_start v))) = Idle"
    by (simp only: e s) simp
next
  assume a: "\<not> cancelled (cyc h) \<and> pending (cyc h) = InFlight b \<and>
    attempt_error outa = Some ea \<and> err_name ea = ''AbortError''"
  with settle_failure [of h b outa ea]
  show "step (Settle outa) h =
        h\<lparr>view := (view h)\<lparr>error := Some (message_or_default ea), loading := False\<rparr>,
          cyc := (cyc h)\<lparr>pending := Idle\<rparr>\<rparr>"
    by simp
qed

lemma transient_examples: "transient out_net" "transient out_503"
  by (simp_all add: transient_def attempt_error_def await_body_def out_net_def out_503_def)

lemma error_503: "attempt_error out_503 = Some (JsError ''Error'' ''unavailable'')"
  by (simp add: attempt_error_def await_body_def out_503_def error_of_body_def)

lemma body_ok: "await_body out_ok = Inr (JObj [(''total'', JNum 1), (''items'', JArr [JStr ''img''])])"
  by (simp add: await_body_def out_ok_def)

theorem retry_schedule_witness:
  "\<not> cancelled (cyc (effect_start initial_rendered)) \<and>
   pending (cyc (effect_start initial_rendered)) = InFlight 0 \<and> transient out_net \<and>
   pending (cyc (step (Settle out_net) (effect_start initial_rendered))) = Timer 1000 1 \<and>
   timers (cyc (step (Settle out_net) (effect_start initial_rendered))) = [1000] \<and>
   loading (view (step (Settle out_net) (effect_start initial_rendered))) \<and>
   list_all transient [out_net, out_503, out_net, out_net, out_net] \<and>
   attempt_error out_503 = Some (JsError ''Error'' ''unavailable'') \<and>
   run (retry_trace [out_net, out_503, out_net, out_net, out_net] @ [Settle out_503])
       (effect_start initial_rendered) =
     \<lparr>view = \<lparr>items = [], error = Some ''unavailable'', loading = False\<rparr>,
      cyc = \<lparr>cancelled = False, aborted = False, pending = Idle, fetches = 6,
             timers = [1000, 2000, 4000, 8000, 8000]\<rparr>\<rparr> \<and>
   view (run (retry_trace [out_net, out_503] @ [Settle out_ok]) (effect_start initial_rendered)) =
     \<lparr>items = [JStr ''img''], error = None, loading = False\<rparr> \<and>
   attempt_error out_abort = Some (JsError ''AbortError'' ''The operation was aborted.'') \<and>
   view (step (Settle out_abort) (step TimerFires (step (Settle out_net)
       (effect_start initial_rendered)))) =
     \<lparr>items = [], error = Some ''The operation was aborted.'', loading = False\<rparr> \<and>
   timers (cyc (step (Settle out_abort) (step TimerFires (step (Settle out_net)
       (effect_start initial_rendered))))) = [1000]"
proof -
  let ?g = "effect_start initial_rendered"
  let ?outs = "[out_net, out_503, out_net, out_net, out_net]"
  have g: "\<not> cancelled (cyc ?g)" "pending (cyc ?g) = InFlight 0" "timers (cyc ?g) = []"
      "loading (view ?g)"
    by (simp_all add: effect_start_in_flight in_flight_def initial_rendered_def)
  have t: "list_all transient ?outs" "list_all transient [out_net, out_503]"
    by (simp_all add: transient_examples)
  have gi: "get_prop ''items'' (JObj [(''total'', JNum 1), (''items'', JArr [JStr ''img''])]) =
      Some (JArr [JStr ''img''])"
    by simp
  have ea: "attempt_error out_abort = Some (JsError ''AbortError'' ''The operation was aborted.'')"
    by (simp add: attempt_error_def await_body_def out_abort_def)
  have r1: "step TimerFires (step (Settle out_net) ?g) = in_flight initial_rendered 1"
    using retry_pair [of out_net 0 initial_rendered] transient_examples
    by (simp add: run_Cons run_Nil effect_start_in_flight)
  have f1: "\<not> cancelled (cyc (in_flight initial_rendered 1))"
      "pending (cyc (in_flight initial_rendered 1)) = InFlight 1"
      "timers (cyc (in_flight initial_rendered 1)) = [1000]"
      "view (in_flight initial_rendered 1) = \<lparr>items = [], error = None, loading = True\<rparr>"
    by (simp_all add: in_flight_def initial_rendered_def retry_delay_def)
  from retry_schedule [of ?g 0 out_net "[out_net, out_503]" initial_rendered out_503
      "JsError ''Error'' ''unavailable''" out_ok
      "JObj [(''total'', JNum 1), (''items'', JArr [JStr ''img''])]" "[JStr ''img'']"
      "in_flight initial_rendered 1" 1 out_abort
      "JsError ''AbortError'' ''The operation was aborted.''"]
  have 3: "step (Settle out_abort) (in_flight initial_rendered 1) =
      (in_flight initial_rendered 1)\<lparr>view := (view (in_flight initial_rendered 1))
          \<lparr>error := Some ''The operation was aborted.'', loading := False\<rparr>,
        cyc := (cyc (in_flight initial_rendered 1))\<lparr>pending := Idle\<rparr>\<rparr>"
    using f1(1,2) ea by (simp add: message_or_default_def)
  have 4: "view (step (Settle out_abort) (step TimerFires (step (Settle out_net) ?g))) =
        \<lparr>items = [], error = Some ''The operation was aborted.'', loading = False\<rparr>"
      "timers (cyc (step (Settle out_abort) (step TimerFires (step (Settle out_net) ?g)))) =
        [1000]"
    unfolding r1 3 by (simp_all add: in_flight_def initial_rendered_def retry_delay_def)
  from retry_schedule [of ?g 0 out_net ?outs initial_rendered out_503 "JsError ''Error'' ''unavailable''"]
    retry_schedule [of ?g 0 out_net "[out_net, out_503]" initial_rendered out_503
      "JsError ''Error'' ''unavailable''" out_ok
      "JObj [(''total'', JNum 1), (''items'', JArr [JStr ''img''])]" "[JStr ''img'']"]
  show ?thesis
    using g t transient_examples error_503 body_ok gi ea 4
    by (simp add: message_or_default_def initial_rendered_def)
qed


subsection \<open>A body without a list of items\<close>

lemma items_of_not_array:
  "data \<noteq> JNull \<Longrightarrow> \<forall>xs. get_prop ''items'' data \<noteq> Some (JArr xs) \<Longrightarrow> items_of data = Inr []"
  by (auto simp: items_of_def split: option.splits json.splits)

lemma load_begin_live:
  "\<not> cancelled (cyc g) \<Longrightarrow>
   \<not> cancelled (cyc (load_begin a g)) \<and> pending (cyc (load_begin a g)) = InFlight a \<and>
   error (view (load_begin a g)) = None \<and> items (view (load_begin a g)) = items (view g) \<and>
   timers (cyc (load_begin a g)) = timers (cyc g)"
  by (simp add: load_begin_def Let_def)

text \<open>
  A live attempt receives an ok response whose body is not \<^verbatim>\<open>null\<close> and has no list
  under \<^verbatim>\<open>items\<close> (the field is missing or is not an array): the rendered items become
  the empty list, loading is off, no error is shown and no retry is set.
\<close>

lemma items_not_a_list:
  "\<not> cancelled (cyc g) \<and> data \<noteq> JNull \<and> (\<forall>xs. get_prop ''items'' data \<noteq> Some (JArr xs)) \<longrightarrow>
     view (step (Settle (FetchResolves True (JsonResolves data))) (load_begin a g)) =
       \<lparr>items = [], error = None, loading = False\<rparr> \<and>
     pending (cyc (step (Settle (FetchResolves True (JsonResolves data))) (load_begin a g))) = Idle \<and>
     timers (cyc (step (Settle (FetchResolves True (JsonResolves data))) (load_begin a g))) =
       timers (cyc g)"
proof
  assume a: "\<not> cancelled (cyc g) \<and> data \<noteq> JNull \<and> (\<forall>xs. get_prop ''items'' data \<noteq> Some (JArr xs))"
  let ?g = "load_begin a g"
  let ?out = "FetchResolves True (JsonResolves data)"
  note lb = load_begin_live [of g a]
  have b: "await_body ?out = Inr data"
    by (simp add: await_body_def)
  have i: "items_of data = Inr []"
    using a by (simp add: items_of_not_array)
  have s: "step (Settle ?out) ?g =
      ?g\<lparr>view := (view ?g)\<lparr>items := [], loading := False\<rparr>, cyc := (cyc ?g)\<lparr>pending := Idle\<rparr>\<rparr>"
    using settle_success [of ?g a ?out data "[]"] a lb b i by simp
  have v: "(view ?g)\<lparr>items := [], loading := False\<rparr> = \<lparr>items = [], error = None, loading = False\<rparr>"
    using a lb by (cases "view ?g") simp
  show "view (step (Settle ?out) ?g) = \<lparr>items = [], error = None, loading = False\<rparr> \<and>
     pending (cyc (step (Settle ?out) ?g)) = Idle \<and>
     timers (cyc (step (Settle ?out) ?g)) = timers (cyc g)"
    using a lb by (simp only: s) (simp add: v)
qed

lemma items_not_a_list_example:
  "\<not> cancelled (cyc \<lparr>view = v_old, cyc = new_cycle\<rparr>) \<and>
   get_prop ''items'' (JObj [(''items'', JStr ''none'')]) = Some (JStr ''none'') \<and>
   view (step (Settle out_no_items) (effect_start v_old)) =
     \<lparr>items = [], error = None, loading = False\<rparr> \<and>
   pending (cyc (step (Settle out_no_items) (effect_start v_old))) = Idle \<and>
   timers (cyc (step (Settle out_no_items) (effect_start v_old))) = []"
proof -
  have h: "\<not> cancelled (cyc \<lparr>view = v_old, cyc = new_cycle\<rparr>)"
      "JObj [(''items'', JStr ''none'')] \<noteq> JNull"
      "\<forall>xs. get_prop ''items'' (JObj [(''items'', JStr ''none'')]) \<noteq> Some (JArr xs)"
      "timers (cyc \<lparr>view = v_old, cyc = new_cycle\<rparr>) = []"
    by (simp_all add: new_cycle_def)
  from items_not_a_list [of "\<lparr>view = v_old, cyc = new_cycle\<rparr>" "JObj [(''items'', JStr ''none'')]" 0]
  show ?thesis
    using h by (simp add: effect_start_def out_no_items_def)
qed

text \<open>
  C10. An ok response whose body is \<^verbatim>\<open>null\<close> has no array under \<^verbatim>\<open>items\<close>, so the
  rendered items should become the empty list, loading should end and no error should be
  shown. The component reads \<^verbatim>\<open>data.items\<close>, which throws a \<^verbatim>\<open>TypeError\<close> for
  \<^verbatim>\<open>null\<close>: the attempt counts as failed, the items stay what they were, loading stays on
  and a retry is set after 1000 ms. One line above, for a response that is not ok, the
  component reads \<^verbatim>\<open>data?.error\<close>, which accepts the same body: there the error thrown is
  the one with the default message.
\<close>

theorem null_body_is_retried:
  "\<not> cancelled (cyc (effect_start v_old)) \<and>
   pending (cyc (effect_start v_old)) = InFlight 0 \<and>
   await_body out_null = Inr JNull \<and>
   get_prop ''items'' JNull = None \<and>
   attempt_error out_null = Some (JsError ''TypeError'' null_read_message) \<and>
   step (Settle out_null) (effect_start v_old) =
     \<lparr>view = \<lparr>items = [JStr ''old''], error = None, loading = True\<rparr>,
      cyc = \<lparr>cancelled = False, aborted = False, pending = Timer 1000 1, fetches = 1,
             timers = [1000]\<rparr>\<rparr> \<and>
   attempt_error (FetchResolves False (JsonResolves JNull)) =
     Some (JsError ''Error'' ''Failed to load images'')"
proof -
  have e: "attempt_error out_null = Some (JsError ''TypeError'' null_read_message)"
    by (simp add: attempt_error_def await_body_def items_of_def out_null_def)
  have g: "\<not> cancelled (cyc (in_flight v_old 0))" "pending (cyc (in_flight v_old 0)) = InFlight 0"
    by (simp_all add: in_flight_def)
  have b: "await_body out_null = Inr JNull"
    by (simp add: await_body_def out_null_def)
  have n: "attempt_error (FetchResolves False (JsonResolves JNull)) =
     Some (JsError ''Error'' ''Failed to load images'')"
    by (simp add: attempt_error_def await_body_def error_of_body_def default_message_def)
  from settle_failure [OF g e] e g b n show ?thesis
    by (simp add: effect_start_in_flight) (simp add: in_flight_def v_old_def retry_delay_def)
qed

theorem cancelled_cycle_is_silent_witness:
  "pending (cyc (step (Settle out_net) (effect_start v_old))) = Timer 1000 1 \<and>
   cancelled (cyc (step Cleanup (step (Settle out_net) (effect_start v_old)))) \<and>
   cancelled (cyc (step Cleanup (effect_start v_old))) \<and>
   view (run [Cleanup, TimerFires, Settle out_ok] (step (Settle out_net) (effect_start v_old))) =
     \<lparr>items = [JStr ''old''], error = None, loading = True\<rparr> \<and>
   fetches (cyc (run [Cleanup, TimerFires, Settle out_ok] (step (Settle out_net) (effect_start v_old)))) = 1 \<and>
   view (run [Settle out_ok] (step Cleanup (effect_start v_old))) =
     \<lparr>items = [JStr ''old''], error = None, loading = True\<rparr>"
proof -
  let ?g = "step (Settle out_net) (effect_start v_old)"
  have e: "attempt_error out_net = Some (JsError ''TypeError'' ''Failed to fetch'')"
    by (simp add: attempt_error_def await_body_def out_net_def)
  have g: "\<not> cancelled (cyc (in_flight v_old 0))" "pending (cyc (in_flight v_old 0)) = InFlight 0"
    by (simp_all add: in_flight_def)
  have s: "?g = (in_flight v_old 0)\<lparr>cyc := (cyc (in_flight v_old 0))\<lparr>pending := Timer 1000 1,
      timers := [1000]\<rparr>\<rparr>"
    using settle_failure [OF g e] by (simp add: effect_start_in_flight) (simp add: in_flight_def retry_delay_def)
  have v: "view ?g = \<lparr>items = [JStr ''old''], error = None, loading = True\<rparr>"
      "fetches (cyc ?g) = 1" "pending (cyc ?g) = Timer 1000 1"
    by (simp_all only: s) (simp_all add: in_flight_def v_old_def)
  have c: "cancelled (cyc (step Cleanup ?g))" "cancelled (cyc (step Cleanup (effect_start v_old)))"
    by simp_all
  have v0: "view (effect_start v_old) = \<lparr>items = [JStr ''old''], error = None, loading = True\<rparr>"
    by (simp add: effect_start_in_flight in_flight_def v_old_def)
  from cancelled_cycle_is_silent [of "step Cleanup (effect_start v_old)" "[Settle out_ok]" "[TimerFires, Settle out_ok]" ?g]
  show ?thesis
    using v c v0 by simp
qed
end
